theory Spec2Isabelle
  imports Main "HOL-Library.Word"
begin

section \<open>Integer types\<close>

text \<open>
  \<^verbatim>\<open>IntFormat.h\<close> is a set of templates over an integer type \<open>T\<close> (excluding bool).
  A type \<open>T\<close> is given here by its width, the type variable \<open>'a\<close>, and by the flag
  \<open>sgd\<close> (\<^verbatim>\<open>std::is_signed_v<T>\<close>). A value of \<open>T\<close> and a value of
  \<^verbatim>\<open>UT = std::make_unsigned_t<T>\<close> are both an \<open>'a word\<close>: the conversions \<^verbatim>\<open>UT(value)\<close>
  and \<^verbatim>\<open>T(uvalue)\<close> keep the bit pattern, \<open>sint\<close> reads a signed \<open>T\<close> and \<open>uint\<close> an
  unsigned one. Arithmetic of \<open>UT\<close> wraps around, as that of \<open>'a word\<close> does.

  The constant \<open>10\<close> of the source must be a value of \<open>UT\<close>, which every C++ integer type
  (at least 8 bits wide) gives; the theorems below ask for 4 bits.

  For a type narrower than \<^verbatim>\<open>int\<close>, C++ evaluates \<^verbatim>\<open>uval % 10\<close>, \<^verbatim>\<open>uvalue * 10\<close>,
  \<^verbatim>\<open>ulimit - uvalue\<close> and \<^verbatim>\<open>uvalue + digit_val\<close> in \<^verbatim>\<open>int\<close> and converts what it stores
  back to \<open>UT\<close>; for the other types it evaluates them in \<open>UT\<close>. What is stored is the
  word result in both cases. Only \<^verbatim>\<open>ulimit - uvalue\<close>, compared without being stored,
  could differ, where \<open>uvalue\<close> exceeds \<open>ulimit\<close>: the guard before the multiplication
  excludes it (\<open>mult_ten_no_wrap\<close> below). The signed steps of \<^verbatim>\<open>-T(uvalue - 1) - 1\<close> stay
  in the range of \<open>T\<close> (\<open>signed_conversion_exact\<close> below), so that their word results are
  their C++ results.
\<close>

definition value_of :: "bool \<Rightarrow> 'a::len word \<Rightarrow> int" where
  "value_of sgd v = (if sgd then sint v else uint v)"

text \<open>
  Modelled from the spec: \<^verbatim>\<open>TypeMin<T>\<close> and \<^verbatim>\<open>TypeMax<T>\<close> of \<^verbatim>\<open>aipstack/misc/MinMax.h\<close>,
  which is not among the sources: the minimum and the maximum representable value of
  \<open>T\<close>.
\<close>

definition TypeMin :: "bool \<Rightarrow> 'a::len word" where
  "TypeMin sgd = (if sgd then word_of_int (- (2 ^ (LENGTH('a) - 1))) else 0)"

definition TypeMax :: "bool \<Rightarrow> 'a::len word" where
  "TypeMax sgd =
     (if sgd then word_of_int (2 ^ (LENGTH('a) - 1) - 1) else word_of_int (2 ^ LENGTH('a) - 1))"

section \<open>MaxIntegerFormatLen\<close>

text \<open>
  \<^verbatim>\<open>
  std::size_t len = 0;
  do { value /= 10; len++; } while (value > 0);
  return len;
  \<close>
  The loop with its counter; \<open>IntegerFormatLenUnsigned\<close> enters it with \<open>len = 0\<close>.
\<close>

lemma unat_ten_neq_1: "unat (10 :: 'a::len word) \<noteq> Suc 0"
proof
  assume h: "unat (10 :: 'a word) = Suc 0"
  have "unat (10 :: 'a word) = 10 mod 2 ^ LENGTH('a)"
    by (rule unat_numeral)
  moreover have "even ((10::nat) mod 2 ^ LENGTH('a))"
    by (metis dvd_mod even_numeral even_power len_gt_0)
  ultimately show False using h by simp
qed

lemma word_div_ten_less:
  fixes v :: "'a::len word"
  assumes "0 < v div 10"
  shows "unat (v div 10) < unat v"
proof -
  have d: "unat (v div 10) = unat v div unat (10 :: 'a word)"
    by (simp add: unat_div)
  from assms have p: "0 < unat v div unat (10 :: 'a word)"
    by (simp add: word_less_nat_alt d)
  then have "unat (10 :: 'a word) \<noteq> 0"
    by (metis div_by_0 less_nat_zero_code)
  with unat_ten_neq_1 [where 'a='a] have "1 < unat (10 :: 'a word)"
    by linarith
  moreover from p have "0 < unat v"
    by (metis div_0 less_nat_zero_code neq0_conv)
  ultimately show ?thesis
    unfolding d by (rule div_less_dividend)
qed

function len_loop :: "'a::len word \<Rightarrow> nat \<Rightarrow> nat" where
  "len_loop v len =
     (let v = v div 10; len = len + 1
      in if v > 0 then len_loop v len else len)"
  by pat_completeness auto
termination
  by (relation "measure (\<lambda>(v, len). unat v)") (auto simp: word_div_ten_less)

declare len_loop.simps [simp del]

text \<open>
  The template argument \<open>T\<close> of \<^verbatim>\<open>IntegerFormatLenUnsigned<T>\<close> is the width \<open>'a\<close> and the
  flag \<open>sgd\<close>. \<^verbatim>\<open>static_assert(std::is_unsigned_v<T>)\<close> makes the instantiation at a signed
  \<open>T\<close> ill-formed: the program does not compile and the function has no value there, the
  result \<open>None\<close>.
\<close>

definition IntegerFormatLenUnsigned :: "bool \<Rightarrow> 'a::len word \<Rightarrow> nat option" where
  "IntegerFormatLenUnsigned sgd v = (if sgd then None else Some (len_loop v 0))"

text \<open>
  \<^verbatim>\<open>
  if (std::is_signed_v<T>) {
      using UT = std::make_unsigned_t<T>;
      return 1 + IntegerFormatLenUnsigned<UT>(UT(-UT(TypeMin<T>)));
  } else {
      return IntegerFormatLenUnsigned<T>(TypeMax<T>);
  }
  \<close>
  The \<^verbatim>\<open>if\<close> is not an \<^verbatim>\<open>if constexpr\<close>: both of its branches are instantiated for every
  \<open>T\<close>, whichever of them the condition selects, the first at \<open>UT\<close> and the second at \<open>T\<close>
  itself. The function has a value only where both instantiations are well-formed, and
  it is then the value of the branch selected. The type argument is passed as
  \<open>TYPE('a)\<close>.
\<close>

definition MaxIntegerFormatLenBase :: "bool \<Rightarrow> 'a::len itself \<Rightarrow> nat option" where
  "MaxIntegerFormatLenBase sgd t =
     (case IntegerFormatLenUnsigned False (- (TypeMin sgd :: 'a word)) of
        None \<Rightarrow> None
      | Some len_of_min \<Rightarrow>
          (case IntegerFormatLenUnsigned sgd (TypeMax sgd :: 'a word) of
             None \<Rightarrow> None
           | Some len_of_max \<Rightarrow> Some (if sgd then 1 + len_of_min else len_of_max)))"

definition MaxIntegerFormatLen :: "bool \<Rightarrow> 'a::len itself \<Rightarrow> nat option" where
  "MaxIntegerFormatLen sgd t = MaxIntegerFormatLenBase sgd t"

section \<open>FormatInteger\<close>

text \<open>
  The caller's buffer is a list of bytes and \<^verbatim>\<open>out_str\<close> points at its element 0, so
  that a \<^verbatim>\<open>char *\<close> into it is an index. \<^verbatim>\<open>*pos++ = c\<close> stores \<open>c\<close> and advances; a
  store past the end of the buffer is undefined in C++ and is the result \<open>None\<close> here.
\<close>

definition put :: "char list \<Rightarrow> nat \<Rightarrow> char \<Rightarrow> (char list \<times> nat) option" where
  "put buf pos c = (if pos < length buf then Some (buf[pos := c], pos + 1) else None)"

text \<open>
  \<^verbatim>\<open>
  do { *pos++ = '0' + (uval % 10); uval /= 10; } while (uval > 0);
  \<close>
\<close>

function fmt_loop :: "'a::len word \<Rightarrow> char list \<Rightarrow> nat \<Rightarrow> (char list \<times> nat) option" where
  "fmt_loop uval buf pos =
     (case put buf pos (char_of (of_char CHR ''0'' + unat (uval mod 10))) of
        None \<Rightarrow> None
      | Some (buf, pos) \<Rightarrow>
          (let uval = uval div 10
           in if uval > 0 then fmt_loop uval buf pos else Some (buf, pos)))"
  by pat_completeness auto
termination
  by (relation "measure (\<lambda>(uval, buf, pos). unat uval)") (auto simp: word_div_ten_less)

declare fmt_loop.simps [simp del]

text \<open>\<^verbatim>\<open>std::reverse(first, last)\<close> reverses the bytes of the range in place.\<close>

definition std_reverse :: "char list \<Rightarrow> nat \<Rightarrow> nat \<Rightarrow> char list" where
  "std_reverse buf first lst =
     take first buf @ rev (take (lst - first) (drop first buf)) @ drop lst buf"

text \<open>
  The result is the buffer after the call and the returned pointer, as an index.
  \<^verbatim>\<open>value < 0\<close> is false for every value of an unsigned \<open>T\<close>; \<^verbatim>\<open>UT(-UT(value))\<close> is the
  negation of \<open>UT\<close>, which wraps around.
\<close>

definition FormatInteger :: "bool \<Rightarrow> char list \<Rightarrow> 'a::len word \<Rightarrow> (char list \<times> nat) option" where
  "FormatInteger sgd out_str v =
     (let isNegative = (value_of sgd v < 0);
          uval = (if isNegative then - v else v)
      in case fmt_loop uval out_str 0 of
           None \<Rightarrow> None
         | Some (buf, pos) \<Rightarrow>
             (case (if isNegative then put buf pos CHR ''-'' else Some (buf, pos)) of
                None \<Rightarrow> None
              | Some (buf, pos) \<Rightarrow> Some (std_reverse buf 0 pos, pos)))"

section \<open>ParseInteger\<close>

text \<open>
  One pass of the body of the digit loop, from \<^verbatim>\<open>char ch = *ptr++\<close> to
  \<^verbatim>\<open>uvalue += digit_val\<close>; \<open>None\<close> is \<^verbatim>\<open>return false\<close>. \<^verbatim>\<open>digit_val\<close> is an
  \<^verbatim>\<open>unsigned char\<close>, whose subtraction wraps around at 256.
\<close>

definition parse_step :: "'a::len word \<Rightarrow> 'a word \<Rightarrow> 'a word \<Rightarrow> char \<Rightarrow> 'a word option" where
  "parse_step ulimit ulimit_10 uvalue ch =
     (let digit_val = (of_char ch :: 8 word) - of_char CHR ''0''
      in if digit_val > 9 then None
         else if uvalue > ulimit_10 then None
         else let uvalue = uvalue * 10
              in if ucast digit_val > ulimit - uvalue then None
                 else Some (uvalue + ucast digit_val))"

text \<open>
  \<^verbatim>\<open>do { ... } while (ptr != end)\<close>: the loop is entered with at least one character
  left, \<open>ch\<close>, and \<open>rest\<close> are the characters from \<^verbatim>\<open>ptr + 1\<close> to \<^verbatim>\<open>end\<close>.
\<close>

fun parse_loop :: "'a::len word \<Rightarrow> 'a word \<Rightarrow> 'a word \<Rightarrow> char \<Rightarrow> char list \<Rightarrow> 'a word option" where
  "parse_loop ulimit ulimit_10 uvalue ch rest =
     (case parse_step ulimit ulimit_10 uvalue ch of
        None \<Rightarrow> None
      | Some uvalue \<Rightarrow>
          (case rest of
             [] \<Rightarrow> Some uvalue
           | ch # rest \<Rightarrow> parse_loop ulimit ulimit_10 uvalue ch rest))"

declare parse_loop.simps [simp del]

text \<open>
  The span \<^verbatim>\<open>str\<close> is the list of its bytes (\<^verbatim>\<open>str.ptr\<close> is not null), and \<open>ptr\<close> is the
  list of the bytes from \<^verbatim>\<open>ptr\<close> to \<^verbatim>\<open>end\<close>. The reference \<^verbatim>\<open>out_value\<close> is passed in
  and returned beside the flag.
\<close>

definition ParseInteger :: "bool \<Rightarrow> char list \<Rightarrow> 'a::len word \<Rightarrow> bool \<times> 'a word" where
  "ParseInteger sgd str out_value =
     (if str = [] then (False, out_value)
      else
        let isNegative = (sgd \<and> hd str = CHR ''-'');
            ptr = (if isNegative then tl str else str)
        in if isNegative \<and> ptr = [] then (False, out_value)
           else
             let ulimit = (if isNegative then - TypeMin sgd else TypeMax sgd);
                 ulimit_10 = ulimit div 10
             in case parse_loop ulimit ulimit_10 0 (hd ptr) (tl ptr) of
                  None \<Rightarrow> (False, out_value)
                | Some uvalue \<Rightarrow>
                    (let v = (if isNegative
                              then (if uvalue = 0 then - uvalue else - (uvalue - 1) - 1)
                              else uvalue)
                     in (True, v)))"

section \<open>Decimal text\<close>

text \<open>
  The notions the properties are stated with: the decimal digits \<open>0\<close> to \<open>9\<close> as
  characters, the number a digit string denotes (most significant digit first), the
  magnitude of a value of \<open>T\<close> and the range of \<open>T\<close>.
\<close>

definition is_digit :: "char \<Rightarrow> bool" where
  "is_digit c = ((48::nat) \<le> of_char c \<and> of_char c \<le> (57::nat))"

definition digit_of :: "char \<Rightarrow> nat" where
  "digit_of c = of_char c - 48"

definition dec_value :: "char list \<Rightarrow> nat" where
  "dec_value ds = foldl (\<lambda>a c. a * 10 + digit_of c) 0 ds"

definition magnitude :: "bool \<Rightarrow> 'a::len word \<Rightarrow> nat" where
  "magnitude sgd v = nat \<bar>value_of sgd v\<bar>"

text \<open>
  The length bound of the spec (its section 4.1), in the spec's words: for an unsigned
  \<open>T\<close> the number of decimal digits of the maximum of \<open>T\<close>, counted by repeated division by
  10 until the quotient is zero, with at least one pass; for a signed \<open>T\<close> that count for
  the magnitude of the minimum of \<open>T\<close>, plus 1 for the sign. It is the constant that
  \<^verbatim>\<open>MaxIntegerFormatLen<T>\<close> is documented to be. The capacity that \<open>FormatInteger\<close> asks of
  its buffer is stated with it, since the source yields no \<^verbatim>\<open>MaxIntegerFormatLen<T>\<close> for a
  signed \<open>T\<close>.
\<close>

function digit_count :: "nat \<Rightarrow> nat" where
  "digit_count n = (if n div 10 > 0 then 1 + digit_count (n div 10) else 1)"
  by pat_completeness auto
termination
  by (relation "measure id") auto

declare digit_count.simps [simp del]

definition length_bound :: "bool \<Rightarrow> 'a::len itself \<Rightarrow> nat" where
  "length_bound sgd t =
     (if sgd then 1 + digit_count (magnitude sgd (TypeMin sgd :: 'a word))
      else digit_count (magnitude sgd (TypeMax sgd :: 'a word)))"

text \<open>
  The decimal representation of an integer \<open>i\<close>: a minus sign exactly when \<open>i\<close> is
  negative, then the digits of the magnitude, at least one, with no leading zero unless
  the digits are the single character \<open>0\<close>.
\<close>

definition is_decimal_of :: "int \<Rightarrow> char list \<Rightarrow> bool" where
  "is_decimal_of i s =
     (let ds = (if i < 0 then tl s else s)
      in (i < 0 \<longrightarrow> s \<noteq> [] \<and> hd s = CHR ''-'') \<and>
         ds \<noteq> [] \<and> list_all is_digit ds \<and>
         (hd ds = CHR ''0'' \<longrightarrow> ds = ''0'') \<and>
         int (dec_value ds) = \<bar>i\<bar>)"

text \<open>
  The grammar of the parser: an optional single leading minus sign, only when \<open>T\<close> is
  signed, followed by one or more decimal digits. \<open>dec_int\<close> is the integer such a text
  denotes, and \<open>representable\<close> says that an integer lies between the minimum and the
  maximum of \<open>T\<close>.
\<close>

definition well_formed :: "bool \<Rightarrow> char list \<Rightarrow> bool" where
  "well_formed sgd s =
     (let ds = (if sgd \<and> s \<noteq> [] \<and> hd s = CHR ''-'' then tl s else s)
      in ds \<noteq> [] \<and> list_all is_digit ds)"

definition dec_int :: "char list \<Rightarrow> int" where
  "dec_int s =
     (if s \<noteq> [] \<and> hd s = CHR ''-'' then - int (dec_value (tl s)) else int (dec_value s))"

definition representable :: "bool \<Rightarrow> 'a::len itself \<Rightarrow> int \<Rightarrow> bool" where
  "representable sgd t i =
     (value_of sgd (TypeMin sgd :: 'a word) \<le> i \<and> i \<le> value_of sgd (TypeMax sgd :: 'a word))"

text \<open>
  For the proofs: the digits of a number, least significant first, as the formatter's
  loop emits them, and the text that \<open>FormatInteger\<close> leaves at the start of the buffer.
\<close>

definition digit_char :: "nat \<Rightarrow> char" where
  "digit_char d = char_of (48 + d)"

function lsd :: "nat \<Rightarrow> char list" where
  "lsd n = digit_char (n mod 10) # (if n div 10 > 0 then lsd (n div 10) else [])"
  by pat_completeness auto
termination
  by (relation "measure id") auto

declare lsd.simps [simp del]

definition format_text :: "bool \<Rightarrow> 'a::len word \<Rightarrow> char list" where
  "format_text sgd v =
     (if value_of sgd v < 0 then [CHR ''-''] else []) @ rev (lsd (magnitude sgd v))"

text \<open>The digit string read into an accumulator that starts at \<open>a\<close>.\<close>

definition dec_acc :: "nat \<Rightarrow> char list \<Rightarrow> nat" where
  "dec_acc a ds = foldl (\<lambda>a c. a * 10 + digit_of c) a ds"

section \<open>Digits of a number\<close>

lemma of_char_digit_char: "d < 10 \<Longrightarrow> of_char (digit_char d) = 48 + d"
  by (simp add: digit_char_def)

lemma is_digit_digit_char: "d < 10 \<Longrightarrow> is_digit (digit_char d)"
  by (simp add: is_digit_def of_char_digit_char)

lemma digit_of_digit_char: "d < 10 \<Longrightarrow> digit_of (digit_char d) = d"
  by (simp add: digit_of_def of_char_digit_char)

lemma digit_char_zero: "digit_char 0 = CHR ''0''"
proof -
  have "char_of (of_char CHR ''0'' :: nat) = CHR ''0''" by (rule char_of_char)
  then show ?thesis by (simp add: digit_char_def)
qed

lemma digit_char_eq_zero: "d < 10 \<Longrightarrow> digit_char d = CHR ''0'' \<longleftrightarrow> d = 0"
proof
  assume d: "d < 10" and "digit_char d = CHR ''0''"
  then have "(of_char (digit_char d) :: nat) = of_char CHR ''0''" by simp
  with d show "d = 0" by (simp add: of_char_digit_char)
qed (simp add: digit_char_zero)

lemma lsd_nonempty: "lsd n \<noteq> []"
  by (subst lsd.simps) simp

lemma lsd_zero: "lsd 0 = ''0''"
  by (subst lsd.simps) (simp add: digit_char_zero)

lemma lsd_digits: "list_all is_digit (lsd n)"
  by (induction n rule: lsd.induct) (subst lsd.simps, simp add: is_digit_digit_char)

lemma dec_value_snoc: "dec_value (ds @ [c]) = dec_value ds * 10 + digit_of c"
  by (simp add: dec_value_def)

lemma dec_value_rev_lsd: "dec_value (rev (lsd n)) = n"
proof (induction n rule: lsd.induct)
  case (1 n)
  show ?case
  proof (cases "n div 10 > 0")
    case True
    with 1 have "dec_value (rev (lsd (n div 10))) = n div 10" by simp
    with True show ?thesis
      by (subst lsd.simps) (simp add: dec_value_snoc digit_of_digit_char)
  next
    case False
    then show ?thesis
      by (subst lsd.simps) (simp add: dec_value_def digit_of_digit_char)
  qed
qed

lemma last_lsd: "0 < n \<Longrightarrow> last (lsd n) \<noteq> CHR ''0''"
proof (induction n rule: lsd.induct)
  case (1 n)
  show ?case
  proof (cases "n div 10 > 0")
    case True
    with 1 show ?thesis
      by (subst lsd.simps) (simp add: lsd_nonempty)
  next
    case False
    with 1(2) have "n mod 10 \<noteq> 0" by auto
    with False show ?thesis
      by (subst lsd.simps) (simp add: digit_char_eq_zero)
  qed
qed

lemma length_lsd_mono: "m \<le> n \<Longrightarrow> length (lsd m) \<le> length (lsd n)"
proof (induction n arbitrary: m rule: lsd.induct)
  case (1 n)
  show ?case
  proof (cases "m div 10 > 0")
    case True
    with 1(2) have n: "n div 10 > 0" 
      by (meson div_le_mono less_le_trans)
    from 1(2) have "m div 10 \<le> n div 10" by (rule div_le_mono)
    with 1(1) n have "length (lsd (m div 10)) \<le> length (lsd (n div 10))" by simp
    with True n show ?thesis
      by (subst lsd.simps, subst (2) lsd.simps) simp
  next
    case False
    then show ?thesis
      by (subst lsd.simps, subst (2) lsd.simps) simp
  qed
qed

section \<open>The two loops over the digits\<close>

lemma unat_ten: "4 \<le> LENGTH('a::len) \<Longrightarrow> unat (10 :: 'a word) = 10"
proof -
  assume "4 \<le> LENGTH('a)"
  then have "(2::nat) ^ 4 \<le> 2 ^ LENGTH('a)"
    by (rule power_increasing) simp
  then have "(10::nat) < 2 ^ LENGTH('a)" by simp
  then have "(10::nat) mod 2 ^ LENGTH('a) = 10" by (rule mod_less)
  with unat_numeral [of "num.Bit0 (num.Bit1 (num.Bit0 num.One))", where 'a='a]
  show ?thesis by (rule trans)
qed

lemma unat_mod_ten: "4 \<le> LENGTH('a::len) \<Longrightarrow> unat (v mod 10 :: 'a word) = unat v mod 10"
  by (simp only: unat_mod unat_ten)

lemma unat_div_ten: "4 \<le> LENGTH('a::len) \<Longrightarrow> unat (v div 10 :: 'a word) = unat v div 10"
  by (simp only: unat_div unat_ten)

lemma len_loop_lsd:
  "4 \<le> LENGTH('a::len) \<Longrightarrow> len_loop (v :: 'a word) len = len + length (lsd (unat v))"
proof (induction v len rule: len_loop.induct)
  case (1 v len)
  show ?case
  proof (cases "v div 10 > 0")
    case True
    then have p: "unat v div 10 > 0"
      using 1(2) by (simp add: word_less_nat_alt unat_div_ten)
    from 1 True have "len_loop (v div 10) (len + 1) = len + 1 + length (lsd (unat (v div 10)))"
      by simp
    with True p 1(2) show ?thesis
      by (subst len_loop.simps, subst lsd.simps) (simp add: unat_div_ten)
  next
    case False
    then have p: "\<not> unat v div 10 > 0"
      using 1(2) by (simp add: word_less_nat_alt unat_div_ten)
    with False show ?thesis
      by (subst len_loop.simps, subst lsd.simps) simp
  qed
qed

lemma put_Some: "pos < length buf \<Longrightarrow> put buf pos c = Some (take pos buf @ c # drop (Suc pos) buf, Suc pos)"
  by (simp add: put_def upd_conv_take_nth_drop)

lemma fmt_loop_lsd:
  fixes uval :: "'a::len word"
  assumes "4 \<le> LENGTH('a)"
  shows "pos + length (lsd (unat uval)) \<le> length buf \<Longrightarrow>
    fmt_loop uval buf pos =
      Some (take pos buf @ lsd (unat uval) @ drop (pos + length (lsd (unat uval))) buf,
            pos + length (lsd (unat uval)))"
proof (induction uval buf pos rule: fmt_loop.induct)
  case (1 uval buf pos)
  let ?c = "digit_char (unat uval mod 10)"
  let ?buf = "take pos buf @ ?c # drop (Suc pos) buf"
  have c: "char_of (of_char CHR ''0'' + unat (uval mod 10)) = ?c"
    using assms by (simp add: digit_char_def unat_mod_ten)
  from 1(2) have lt: "pos < length buf"
    using lsd_nonempty [of "unat uval"] by (cases "lsd (unat uval)") auto
  then have put: "put buf pos ?c = Some (?buf, Suc pos)"
    by (rule put_Some)
  show ?case
  proof (cases "uval div 10 > 0")
    case True
    then have p: "unat uval div 10 > 0"
      using assms by (simp add: word_less_nat_alt unat_div_ten)
    then have l: "lsd (unat uval) = ?c # lsd (unat uval div 10)"
      by (subst lsd.simps) simp
    have u: "unat (uval div 10) = unat uval div 10"
      using assms by (rule unat_div_ten)
    from 1(2) l have le: "Suc pos + length (lsd (unat (uval div 10))) \<le> length ?buf"
      using lt by (simp add: u)
    have "fmt_loop (uval div 10) ?buf (Suc pos) =
      Some (take (Suc pos) ?buf @ lsd (unat (uval div 10)) @
              drop (Suc pos + length (lsd (unat (uval div 10)))) ?buf,
            Suc pos + length (lsd (unat (uval div 10))))"
      using 1(1) [of "(?buf, Suc pos)" ?buf "Suc pos" "uval div 10"] put True le c
      by simp
    moreover have "take (Suc pos) ?buf = take pos buf @ [?c]"
      using lt by simp
    moreover have "drop (Suc pos + k) ?buf = drop (Suc pos + k) buf" for k
      using lt by (simp add: ac_simps)
    ultimately show ?thesis
      using True put c l u by (subst fmt_loop.simps) simp
  next
    case False
    then have p: "\<not> unat uval div 10 > 0"
      using assms by (simp add: word_less_nat_alt unat_div_ten)
    then have l: "lsd (unat uval) = [?c]"
      by (subst lsd.simps) simp
    show ?thesis
      using False put c l by (subst fmt_loop.simps) simp
  qed
qed

section \<open>Signed values and magnitudes\<close>

lemma uint_of_int_small:
  "0 \<le> k \<Longrightarrow> k < 2 ^ LENGTH('a::len) \<Longrightarrow> uint (word_of_int k :: 'a word) = k"
  by (simp add: uint_word_of_int)

lemma half_lt_full: "(2::int) ^ (LENGTH('a::len) - 1) < 2 ^ LENGTH('a)"
  by (rule power_strict_increasing) simp_all

lemma uint_neg_of_sint:
  fixes v :: "'a::len word"
  assumes "sint v < 0"
  shows "uint (- v) = - sint v"
proof -
  have "- v = word_of_int (- sint v)"
    by simp
  moreover have "0 \<le> - sint v" using assms by simp
  moreover have "- sint v < 2 ^ LENGTH('a)"
    using sint_ge [of v] half_lt_full [where 'a='a] by linarith
  ultimately show ?thesis
    by (metis uint_of_int_small)
qed

lemma uint_of_sint_nonneg:
  fixes v :: "'a::len word"
  assumes "0 \<le> sint v"
  shows "uint v = sint v"
proof -
  have "v = word_of_int (sint v)"
    by simp
  moreover have "sint v < 2 ^ LENGTH('a)"
    using sint_lt [of v] half_lt_full [where 'a='a] by linarith
  ultimately show ?thesis
    using assms by (metis uint_of_int_small)
qed

lemma sint_of_int_small:
  "- (2 ^ (LENGTH('a::len) - 1)) \<le> k \<Longrightarrow> k < 2 ^ (LENGTH('a) - 1) \<Longrightarrow> sint (word_of_int k :: 'a word) = k"
  by (simp add: signed_take_bit_int_eq_self sint_sbintrunc')

lemma unat_uval:
  "unat (if value_of sgd v < 0 then - v else v) = magnitude sgd v"
proof (cases "value_of sgd v < 0")
  case True
  then have s: "sgd" and n: "sint v < 0"
    by (auto simp: value_of_def split: if_splits)
  from n have "uint (- v) = - sint v" by (rule uint_neg_of_sint)
  then have "nat (uint (- v)) = nat (- sint v)" by (rule arg_cong)
  then have "unat (- v) = nat (- sint v)" by (simp only: nat_uint_eq)
  with True s n show ?thesis
    by (simp add: magnitude_def value_of_def)
next
  case False
  then have "uint v = value_of sgd v"
    by (auto simp: value_of_def uint_of_sint_nonneg)
  then have "nat (uint v) = nat (value_of sgd v)" by (rule arg_cong)
  then have "unat v = nat (value_of sgd v)" by (simp only: nat_uint_eq)
  with False show ?thesis
    by (simp add: magnitude_def)
qed

lemma half_bounds:
  "(0::int) \<le> 2 ^ (LENGTH('a::len) - 1)"
  "(0::int) \<le> 2 ^ (LENGTH('a::len) - 1) - 1"
  "(2::int) ^ (LENGTH('a::len) - 1) - 1 < 2 ^ LENGTH('a)"
  "(2::int) ^ (LENGTH('a::len) - 1) - 1 < 2 ^ (LENGTH('a) - 1)"
  "- ((2::int) ^ (LENGTH('a::len) - 1)) \<le> 2 ^ (LENGTH('a) - 1) - 1"
  "(0::int) \<le> 2 ^ LENGTH('a::len) - 1"
  "(2::int) ^ LENGTH('a::len) - 1 < 2 ^ LENGTH('a)"
proof -
  have a: "(1::int) \<le> 2 ^ (LENGTH('a) - 1)" by (rule one_le_power) simp
  have b: "(1::int) \<le> 2 ^ LENGTH('a)" by (rule one_le_power) simp
  note c = half_lt_full [where 'a='a]
  show "(0::int) \<le> 2 ^ (LENGTH('a::len) - 1)" using a by linarith
  show "(0::int) \<le> 2 ^ (LENGTH('a::len) - 1) - 1" using a by linarith
  show "(2::int) ^ (LENGTH('a::len) - 1) - 1 < 2 ^ LENGTH('a)" using c by linarith
  show "(2::int) ^ (LENGTH('a::len) - 1) - 1 < 2 ^ (LENGTH('a) - 1)" by linarith
  show "- ((2::int) ^ (LENGTH('a::len) - 1)) \<le> 2 ^ (LENGTH('a) - 1) - 1" using a by linarith
  show "(0::int) \<le> 2 ^ LENGTH('a::len) - 1" using b by linarith
  show "(2::int) ^ LENGTH('a::len) - 1 < 2 ^ LENGTH('a)" by linarith
qed

lemma uint_TypeMin_neg: "uint (- TypeMin True :: 'a::len word) = 2 ^ (LENGTH('a) - 1)"
proof -
  have "- TypeMin True = (word_of_int (- (- (2 ^ (LENGTH('a) - 1)))) :: 'a word)"
    unfolding TypeMin_def by (simp only: if_True wi_hom_neg)
  then have "- TypeMin True = (word_of_int (2 ^ (LENGTH('a) - 1)) :: 'a word)"
    by (simp only: minus_minus)
  then show ?thesis
    using uint_of_int_small [of "2 ^ (LENGTH('a) - 1)", where 'a='a] half_lt_full [where 'a='a]
    by (simp only: half_bounds)
qed

lemma sint_TypeMin: "sint (TypeMin True :: 'a::len word) = - (2 ^ (LENGTH('a) - 1))"
  unfolding TypeMin_def by (simp only: if_True) (rule sint_of_int_small, simp_all)

lemma sint_TypeMax: "sint (TypeMax True :: 'a::len word) = 2 ^ (LENGTH('a) - 1) - 1"
  unfolding TypeMax_def
  by (simp only: if_True) (rule sint_of_int_small, simp_all only: half_bounds)

lemma uint_TypeMax_signed: "uint (TypeMax True :: 'a::len word) = 2 ^ (LENGTH('a) - 1) - 1"
  unfolding TypeMax_def
  by (simp only: if_True) (rule uint_of_int_small, simp_all only: half_bounds)

lemma uint_TypeMax_unsigned: "uint (TypeMax False :: 'a::len word) = 2 ^ LENGTH('a) - 1"
  unfolding TypeMax_def
  by (simp only: if_False) (rule uint_of_int_small, simp_all only: half_bounds)

lemma value_of_TypeMin: "value_of sgd (TypeMin sgd :: 'a::len word) = (if sgd then - (2 ^ (LENGTH('a) - 1)) else 0)"
  using sint_TypeMin [where 'a='a] by (cases sgd) (simp_all add: value_of_def TypeMin_def)

lemma value_of_TypeMax: "value_of sgd (TypeMax sgd :: 'a::len word) = (if sgd then 2 ^ (LENGTH('a) - 1) - 1 else 2 ^ LENGTH('a) - 1)"
  using sint_TypeMax [where 'a='a] uint_TypeMax_unsigned [where 'a='a] by (cases sgd) (simp_all add: value_of_def)

lemma value_of_range:
  "value_of sgd (TypeMin sgd :: 'a::len word) \<le> value_of sgd (v :: 'a word) \<and> value_of sgd v \<le> value_of sgd (TypeMax sgd :: 'a word)"
  using sint_ge [of v] sint_lt [of v] uint_bounded [of v]
  by (cases sgd) (simp_all add: value_of_TypeMin value_of_TypeMax, simp_all add: value_of_def)

section \<open>What FormatInteger writes\<close>

lemma std_reverse_prefix:
  "length xs = k \<Longrightarrow> std_reverse (xs @ ys) 0 k = rev xs @ ys"
  by (simp add: std_reverse_def)

lemma FormatInteger_text:
  fixes v :: "'a::len word"
  assumes len: "4 \<le> LENGTH('a)" and cap: "length (format_text sgd v) \<le> length buf"
  shows "FormatInteger sgd buf v =
    Some (format_text sgd v @ drop (length (format_text sgd v)) buf, length (format_text sgd v))"
proof -
  let ?neg = "value_of sgd v < 0"
  let ?uval = "if ?neg then - v else v"
  let ?ds = "lsd (magnitude sgd v)"
  let ?k = "length ?ds"
  have u: "unat ?uval = magnitude sgd v" by (rule unat_uval)
  from cap have k: "0 + length (lsd (unat ?uval)) \<le> length buf"
    by (simp add: format_text_def u)
  have loop: "fmt_loop ?uval buf 0 = Some (?ds @ drop ?k buf, ?k)"
    using fmt_loop_lsd [OF len k] by (simp add: u)
  show ?thesis
  proof (cases ?neg)
    case True
    with cap have lt: "?k < length buf" by (simp add: format_text_def)
    then have "put (?ds @ drop ?k buf) ?k CHR ''-'' =
        Some ((?ds @ [CHR ''-'']) @ drop (Suc ?k) buf, Suc ?k)"
      by (simp add: put_def list_update_append drop_Suc [symmetric] upd_conv_take_nth_drop Cons_nth_drop_Suc)
    moreover have "std_reverse ((?ds @ [CHR ''-'']) @ drop (Suc ?k) buf) 0 (Suc ?k) =
        rev (?ds @ [CHR ''-'']) @ drop (Suc ?k) buf"
      by (rule std_reverse_prefix) simp
    ultimately show ?thesis
      using True loop by (simp add: FormatInteger_def format_text_def Let_def)
  next
    case False
    have "std_reverse (?ds @ drop ?k buf) 0 ?k = rev ?ds @ drop ?k buf"
      by (rule std_reverse_prefix) simp
    then show ?thesis
      using False loop by (simp add: FormatInteger_def format_text_def Let_def)
  qed
qed

lemma IntegerFormatLenUnsigned_lsd:
  "4 \<le> LENGTH('a::len) \<Longrightarrow>
     IntegerFormatLenUnsigned False (v :: 'a word) = Some (length (lsd (unat v)))"
  by (simp only: IntegerFormatLenUnsigned_def len_loop_lsd add_0 if_False)

lemma digit_count_lsd: "digit_count n = length (lsd n)"
proof (induction n rule: lsd.induct)
  case (1 n)
  show ?case
  proof (cases "n div 10 > 0")
    case True
    with 1 have "digit_count (n div 10) = length (lsd (n div 10))" by simp
    with True show ?thesis
      by (subst digit_count.simps, subst lsd.simps) simp
  next
    case False
    then show ?thesis
      by (subst digit_count.simps, subst lsd.simps) simp
  qed
qed

lemma magnitude_TypeMin:
  "value_of True (TypeMin True :: 'a::len word) < 0"
  "magnitude True (TypeMin True :: 'a::len word) = 2 ^ (LENGTH('a) - 1)"
proof -
  have "value_of True (TypeMin True :: 'a word) = - (2 ^ (LENGTH('a) - 1))"
    by (simp add: value_of_TypeMin)
  then show "value_of True (TypeMin True :: 'a word) < 0"
    and "magnitude True (TypeMin True :: 'a word) = 2 ^ (LENGTH('a) - 1)"
    by (simp_all add: magnitude_def nat_power_eq)
qed

lemma magnitude_TypeMax:
  "\<not> value_of False (TypeMax False :: 'a::len word) < 0"
  "magnitude False (TypeMax False :: 'a::len word) = 2 ^ LENGTH('a) - 1"
proof -
  have v: "value_of False (TypeMax False :: 'a word) = 2 ^ LENGTH('a) - 1"
    by (simp add: value_of_TypeMax)
  have ge: "(0::int) \<le> 2 ^ LENGTH('a) - 1" by (rule half_bounds)
  from v ge show "\<not> value_of False (TypeMax False :: 'a word) < 0" by linarith
  have "magnitude False (TypeMax False :: 'a word) = nat (2 ^ LENGTH('a) - 1)"
    using ge by (simp only: magnitude_def v abs_of_nonneg)
  then show "magnitude False (TypeMax False :: 'a word) = 2 ^ LENGTH('a) - 1"
    by (simp add: nat_diff_distrib nat_power_eq)
qed

lemma unat_TypeMin_neg: "unat (- TypeMin True :: 'a::len word) = 2 ^ (LENGTH('a) - 1)"
proof -
  have "nat (uint (- TypeMin True :: 'a word)) = nat (2 ^ (LENGTH('a) - 1))"
    by (simp only: uint_TypeMin_neg)
  then show ?thesis by (simp only: nat_uint_eq) (simp add: nat_power_eq)
qed

lemma unat_TypeMax_unsigned: "unat (TypeMax False :: 'a::len word) = 2 ^ LENGTH('a) - 1"
proof -
  have "nat (uint (TypeMax False :: 'a word)) = nat (2 ^ LENGTH('a) - 1)"
    by (simp only: uint_TypeMax_unsigned)
  then show ?thesis by (simp only: nat_uint_eq) (simp add: nat_diff_distrib nat_power_eq)
qed

lemma length_bound_lsd:
  "length_bound sgd TYPE('a::len) =
     (if sgd then 1 + length (lsd (2 ^ (LENGTH('a) - 1))) else length (lsd (2 ^ LENGTH('a) - 1)))"
  by (simp add: length_bound_def digit_count_lsd magnitude_TypeMin magnitude_TypeMax)

lemma MaxIntegerFormatLen_signed: "MaxIntegerFormatLen True TYPE('a::len) = None"
  by (simp add: MaxIntegerFormatLen_def MaxIntegerFormatLenBase_def IntegerFormatLenUnsigned_def)

lemma MaxIntegerFormatLen_unsigned:
  assumes "4 \<le> LENGTH('a::len)"
  shows "MaxIntegerFormatLen False TYPE('a) = Some (length_bound False TYPE('a))"
  by (simp add: MaxIntegerFormatLen_def MaxIntegerFormatLenBase_def
      IntegerFormatLenUnsigned_lsd [OF assms] unat_TypeMax_unsigned length_bound_lsd)

lemma magnitude_le:
  "magnitude sgd (v :: 'a::len word) \<le> (if sgd then 2 ^ (LENGTH('a) - 1) else 2 ^ LENGTH('a) - 1)"
proof -
  have "\<bar>value_of sgd v\<bar> \<le> (if sgd then 2 ^ (LENGTH('a) - 1) else 2 ^ LENGTH('a) - 1)"
    using sint_ge [of v] sint_lt [of v] uint_bounded [of v]
    by (auto simp: value_of_def)
  then have "nat \<bar>value_of sgd v\<bar> \<le> nat (if sgd then 2 ^ (LENGTH('a) - 1) else 2 ^ LENGTH('a) - 1)"
    by (rule nat_mono)
  then show ?thesis
    by (simp add: magnitude_def nat_diff_distrib nat_power_eq split: if_splits)
qed

lemma length_format_text_le:
  fixes v :: "'a::len word"
  shows "length (format_text sgd v) \<le> length_bound sgd TYPE('a)"
proof (cases sgd)
  case True
  have "length (lsd (magnitude sgd v)) \<le> length (lsd (2 ^ (LENGTH('a) - 1)))"
    using magnitude_le [of sgd v] True by (intro length_lsd_mono) simp
  then show ?thesis
    using True by (simp add: format_text_def length_bound_lsd)
next
  case False
  have "length (lsd (magnitude sgd v)) \<le> length (lsd (2 ^ LENGTH('a) - 1))"
    using magnitude_le [of sgd v] False by (intro length_lsd_mono) simp
  moreover have "\<not> value_of sgd v < 0" using False by (simp add: value_of_def)
  ultimately show ?thesis
    using False by (simp add: format_text_def length_bound_lsd)
qed

lemma format_text_hardest:
  "length (format_text sgd (if sgd then TypeMin sgd else TypeMax sgd :: 'a::len word)) =
     length_bound sgd TYPE('a)"
proof (cases sgd)
  case True
  then show ?thesis
    using magnitude_TypeMin [where 'a='a] by (simp add: format_text_def length_bound_lsd)
next
  case False
  then show ?thesis
    using magnitude_TypeMax [where 'a='a] by (simp add: format_text_def length_bound_lsd)
qed

lemma hd_rev_lsd: "hd (rev (lsd n)) = CHR ''0'' \<Longrightarrow> rev (lsd n) = ''0''"
proof (cases "n = 0")
  case True
  then show ?thesis by (simp add: lsd_zero)
next
  case False
  assume "hd (rev (lsd n)) = CHR ''0''"
  then have "last (lsd n) = CHR ''0''"
    by (simp add: hd_rev lsd_nonempty)
  with False last_lsd [of n] show ?thesis by simp
qed

lemma format_text_decimal: "is_decimal_of (value_of sgd v) (format_text sgd v)"
proof -
  define ds where "ds = rev (lsd (magnitude sgd v))"
  have t: "format_text sgd v = (if value_of sgd v < 0 then [CHR ''-''] else []) @ ds"
    by (simp add: format_text_def ds_def)
  have 1: "ds \<noteq> []"
    by (simp add: ds_def lsd_nonempty)
  have 2: "list_all is_digit ds"
    using lsd_digits [of "magnitude sgd v"] by (simp add: ds_def list_all_iff)
  have 3: "int (dec_value ds) = \<bar>value_of sgd v\<bar>"
    by (simp add: ds_def dec_value_rev_lsd magnitude_def)
  have 4: "hd ds = CHR ''0'' \<longrightarrow> ds = ''0''"
    unfolding ds_def by (rule impI) (rule hd_rev_lsd)
  show ?thesis
    unfolding t is_decimal_of_def Let_def using 1 2 3 4 by simp
qed

lemma format_text_zero: "value_of sgd v = 0 \<Longrightarrow> format_text sgd v = ''0''"
  by (simp add: format_text_def magnitude_def lsd_zero)

lemma format_text_nonempty: "1 \<le> length (format_text sgd v)"
  using lsd_nonempty [of "magnitude sgd v"]
  by (cases "lsd (magnitude sgd v)") (simp_all add: format_text_def)

lemma FormatInteger_ok:
  fixes v :: "'a::len word"
  assumes "4 \<le> LENGTH('a)" and "length_bound sgd TYPE('a) \<le> length buf"
  shows "FormatInteger sgd buf v =
    Some (format_text sgd v @ drop (length (format_text sgd v)) buf, length (format_text sgd v))"
    and "length (format_text sgd v) \<le> length buf"
proof -
  show "length (format_text sgd v) \<le> length buf"
    using length_format_text_le [of sgd v] assms(2) by simp
  then show "FormatInteger sgd buf v =
    Some (format_text sgd v @ drop (length (format_text sgd v)) buf, length (format_text sgd v))"
    by (rule FormatInteger_text [OF assms(1)])
qed

section \<open>What ParseInteger accepts\<close>

lemma of_char_less_256: "(of_char c :: nat) < 256"
proof -
  have "(of_char c :: nat) mod 256 < 256" by (rule mod_less_divisor) simp
  then show ?thesis by (simp only: of_char_mod_256)
qed

lemma unat_of_char: "unat (of_char c :: 8 word) = of_char c"
proof -
  have "(of_char c :: 8 word) = of_nat (of_char c)"
    by (simp only: of_nat_of_char)
  then have "unat (of_char c :: 8 word) = of_char c mod 2 ^ LENGTH(8)"
    by (simp only: unat_of_nat)
  then show ?thesis using of_char_less_256 [of c] by simp
qed

lemma digit_val_unat:
  "unat ((of_char ch :: 8 word) - of_char CHR ''0'') =
     (if 48 \<le> (of_char ch :: nat) then of_char ch - 48 else of_char ch + 208)"
proof -
  have z: "unat (of_char CHR ''0'' :: 8 word) = 48"
    by (simp only: unat_of_char) simp
  show ?thesis
    by (simp only: unat_sub_if_size [of "of_char ch" "of_char CHR ''0''"] unat_of_char z word_size)
      simp
qed

lemma digit_val_gt_9:
  "(of_char ch :: 8 word) - of_char CHR ''0'' > 9 \<longleftrightarrow> \<not> is_digit ch"
proof -
  have "unat (9 :: 8 word) = 9" by simp
  then show ?thesis
    unfolding word_less_nat_alt digit_val_unat is_digit_def
    by auto
qed

lemma digit_val_digit:
  "is_digit ch \<Longrightarrow> unat ((of_char ch :: 8 word) - of_char CHR ''0'') = digit_of ch"
  unfolding digit_val_unat by (simp add: is_digit_def digit_of_def)

lemma digit_of_le_9: "is_digit ch \<Longrightarrow> digit_of ch \<le> 9"
  unfolding is_digit_def digit_of_def by linarith

lemma unat_ucast_digit:
  fixes d :: "8 word"
  assumes "4 \<le> LENGTH('a::len)" and "unat d \<le> 9"
  shows "unat (ucast d :: 'a word) = unat d"
proof -
  from assms(1) have "(2::nat) ^ 4 \<le> 2 ^ LENGTH('a)"
    by (rule power_increasing) simp
  with assms(2) have "unat d < 2 ^ LENGTH('a)" by simp
  then have "take_bit LENGTH('a) (unat d) = unat d"
    by (simp only: take_bit_nat_eq_self_iff)
  then show ?thesis
    by (simp only: unsigned_ucast_eq)
qed

lemma div_ten_guard: "(u::nat) \<le> l div 10 \<longleftrightarrow> u * 10 \<le> l"
  by linarith

lemma mult_ten_no_wrap:
  fixes uvalue ulimit :: "'a::len word"
  assumes len: "4 \<le> LENGTH('a)" and g: "\<not> uvalue > ulimit div 10"
  shows "unat (uvalue * 10) = unat uvalue * 10" and "uvalue * 10 \<le> ulimit"
proof -
  from g have "unat uvalue \<le> unat ulimit div 10"
    by (simp only: word_less_nat_alt unat_div_ten [OF len] not_less)
  then have le: "unat uvalue * 10 \<le> unat ulimit"
    by (simp only: div_ten_guard)
  moreover have "unat ulimit < 2 ^ LENGTH('a)" by (rule unsigned_less)
  ultimately have "unat uvalue * unat (10 :: 'a word) < 2 ^ LENGTH('a)"
    by (simp only: unat_ten [OF len])
  then have "unat (uvalue * 10) = unat uvalue * unat (10 :: 'a word)"
    by (simp only: unat_mult_lem)
  then show m: "unat (uvalue * 10) = unat uvalue * 10"
    by (simp only: unat_ten [OF len])
  from le m show "uvalue * 10 \<le> ulimit"
    by (simp only: word_le_nat_alt)
qed

lemma add_digit_no_wrap:
  fixes w ulimit :: "'a::len word" and d :: "8 word"
  assumes len: "4 \<le> LENGTH('a)" and d: "unat d \<le> 9" and w: "w \<le> ulimit"
    and g: "\<not> ucast d > ulimit - w"
  shows "unat (w + ucast d) = unat w + unat d" and "w + ucast d \<le> ulimit"
proof -
  have ud: "unat (ucast d :: 'a word) = unat d"
    using len d by (rule unat_ucast_digit)
  from w have sub: "unat (ulimit - w) = unat ulimit - unat w"
    by (rule unat_sub)
  from w have wl: "unat w \<le> unat ulimit" by (simp only: word_le_nat_alt)
  from g have "unat d \<le> unat ulimit - unat w"
    by (simp only: word_less_nat_alt ud sub not_less)
  with wl have le: "unat w + unat d \<le> unat ulimit" by linarith
  moreover have "unat ulimit < 2 ^ LENGTH('a)" by (rule unsigned_less)
  ultimately have "unat w + unat (ucast d :: 'a word) < 2 ^ LENGTH('a)"
    by (simp only: ud)
  then have "unat (w + ucast d) = unat w + unat (ucast d :: 'a word)"
    by (simp only: unat_add_lem)
  then show a: "unat (w + ucast d) = unat w + unat d" by (simp only: ud)
  from le a show "w + ucast d \<le> ulimit" by (simp only: word_le_nat_alt)
qed

lemma parse_step_unfold:
  "parse_step ulimit ulimit_10 uvalue ch =
     (if (of_char ch :: 8 word) - of_char CHR ''0'' > 9 then None
      else if uvalue > ulimit_10 then None
      else if ucast ((of_char ch :: 8 word) - of_char CHR ''0'') > ulimit - uvalue * 10 then None
      else Some (uvalue * 10 + ucast ((of_char ch :: 8 word) - of_char CHR ''0'')))"
  by (simp only: parse_step_def Let_def)

lemma parse_step_Some:
  fixes uvalue ulimit :: "'a::len word"
  assumes len: "4 \<le> LENGTH('a)"
  shows "parse_step ulimit (ulimit div 10) uvalue ch = Some r \<longleftrightarrow>
    is_digit ch \<and> unat uvalue * 10 + digit_of ch \<le> unat ulimit \<and>
    unat r = unat uvalue * 10 + digit_of ch"
proof (cases "is_digit ch")
  case False
  then have "(of_char ch :: 8 word) - of_char CHR ''0'' > 9"
    by (simp only: digit_val_gt_9 not_False_eq_True)
  then have "parse_step ulimit (ulimit div 10) uvalue ch = None"
    by (simp only: parse_step_unfold if_True)
  with False show ?thesis by simp
next
  case dg: True
  let ?d = "(of_char ch :: 8 word) - of_char CHR ''0''"
  have d9: "\<not> ?d > 9" using dg by (simp only: digit_val_gt_9 not_not)
  have ud: "unat ?d = digit_of ch" using dg by (rule digit_val_digit)
  have d: "unat ?d \<le> 9" using dg by (simp only: ud digit_of_le_9)
  have uc: "unat (ucast ?d :: 'a word) = unat ?d" using len d by (rule unat_ucast_digit)
  show ?thesis
  proof (cases "uvalue > ulimit div 10")
    case True
    then have "unat uvalue > unat ulimit div 10"
      by (simp only: word_less_nat_alt unat_div_ten [OF len])
    then have "\<not> unat uvalue * 10 \<le> unat ulimit"
      by linarith
    then have n: "\<not> unat uvalue * 10 + digit_of ch \<le> unat ulimit" by linarith
    from True d9 have "parse_step ulimit (ulimit div 10) uvalue ch = None"
      by (simp only: parse_step_unfold if_True if_False)
    with n show ?thesis by simp
  next
    case g1: False
    note m = mult_ten_no_wrap [OF len g1]
    show ?thesis
    proof (cases "ucast ?d > ulimit - uvalue * 10")
      case True
      then have "unat ?d > unat ulimit - unat uvalue * 10"
        by (simp only: word_less_nat_alt uc unat_sub [OF m(2)] m(1))
      then have n: "\<not> unat uvalue * 10 + digit_of ch \<le> unat ulimit"
        unfolding ud by linarith
      from True d9 g1 have "parse_step ulimit (ulimit div 10) uvalue ch = None"
        by (simp only: parse_step_unfold if_True if_False)
      with n show ?thesis by simp
    next
      case g2: False
      note a = add_digit_no_wrap [OF len d m(2) g2]
      have eq: "parse_step ulimit (ulimit div 10) uvalue ch = Some (uvalue * 10 + ucast ?d)"
        using d9 g1 g2 by (simp only: parse_step_unfold if_False)
      have v: "unat (uvalue * 10 + ucast ?d) = unat uvalue * 10 + digit_of ch"
        by (simp only: a(1) m(1) ud)
      have le: "unat uvalue * 10 + digit_of ch \<le> unat ulimit"
        using a(2) by (simp only: word_le_nat_alt v)
      have "Some (uvalue * 10 + ucast ?d) = Some r \<longleftrightarrow> unat r = unat uvalue * 10 + digit_of ch"
        unfolding v [symmetric] by (auto simp only: option.inject word_unat_eq_iff)
      with dg le show ?thesis
        by (simp only: eq simp_thms)
    qed
  qed
qed

lemma dec_acc_Nil: "dec_acc a [] = a"
  by (simp add: dec_acc_def)

lemma dec_acc_Cons: "dec_acc a (c # cs) = dec_acc (a * 10 + digit_of c) cs"
  by (simp add: dec_acc_def)

lemma dec_value_acc: "dec_value ds = dec_acc 0 ds"
  by (simp add: dec_acc_def dec_value_def)

lemma dec_acc_ge: "a \<le> dec_acc a ds"
proof (induction ds arbitrary: a)
  case Nil
  show ?case by (simp add: dec_acc_Nil)
next
  case (Cons c cs)
  have "a \<le> a * 10 + digit_of c" by simp
  also have "\<dots> \<le> dec_acc (a * 10 + digit_of c) cs" by (rule Cons.IH)
  finally show ?case by (simp only: dec_acc_Cons)
qed

lemma dec_acc_pow: "dec_acc a ds = a * 10 ^ length ds + dec_value ds"
proof (induction ds arbitrary: a)
  case Nil
  show ?case by (simp add: dec_acc_Nil dec_value_def)
next
  case (Cons c cs)
  have "dec_acc a (c # cs) = (a * 10 + digit_of c) * 10 ^ length cs + dec_value cs"
    by (simp only: dec_acc_Cons Cons.IH)
  moreover have "dec_value (c # cs) = digit_of c * 10 ^ length cs + dec_value cs"
    using Cons.IH [of "digit_of c"] by (simp add: dec_value_acc dec_acc_Cons)
  ultimately show ?case by (simp add: algebra_simps)
qed

lemma parse_loop_Nil:
  "parse_loop ulimit ulimit_10 uvalue ch [] = parse_step ulimit ulimit_10 uvalue ch"
  by (subst parse_loop.simps) (simp split: option.split)

lemma parse_loop_Cons:
  "parse_loop ulimit ulimit_10 uvalue ch (c # cs) = Some r \<longleftrightarrow>
     (\<exists>u. parse_step ulimit ulimit_10 uvalue ch = Some u \<and>
          parse_loop ulimit ulimit_10 u c cs = Some r)"
  by (subst parse_loop.simps) (simp split: option.split)

lemma parse_loop_Some:
  fixes uvalue ulimit :: "'a::len word"
  assumes len: "4 \<le> LENGTH('a)"
  shows "parse_loop ulimit (ulimit div 10) uvalue ch rest = Some r \<longleftrightarrow>
    list_all is_digit (ch # rest) \<and> dec_acc (unat uvalue) (ch # rest) \<le> unat ulimit \<and>
    unat r = dec_acc (unat uvalue) (ch # rest)"
proof (induction rest arbitrary: uvalue ch)
  case Nil
  show ?case
    by (simp only: parse_loop_Nil parse_step_Some [OF len] dec_acc_Cons dec_acc_Nil
        list.pred_inject simp_thms)
next
  case (Cons c cs)
  let ?n = "unat uvalue * 10 + digit_of ch"
  show ?case
  proof
    assume "parse_loop ulimit (ulimit div 10) uvalue ch (c # cs) = Some r"
    then obtain u where s: "parse_step ulimit (ulimit div 10) uvalue ch = Some u"
      and l: "parse_loop ulimit (ulimit div 10) u c cs = Some r"
      by (auto simp only: parse_loop_Cons)
    from s have dg: "is_digit ch" and u: "unat u = ?n"
      by (simp_all only: parse_step_Some [OF len])
    from l have "list_all is_digit (c # cs) \<and> dec_acc (unat u) (c # cs) \<le> unat ulimit \<and>
        unat r = dec_acc (unat u) (c # cs)"
      by (simp only: Cons.IH)
    with dg show "list_all is_digit (ch # c # cs) \<and>
        dec_acc (unat uvalue) (ch # c # cs) \<le> unat ulimit \<and>
        unat r = dec_acc (unat uvalue) (ch # c # cs)"
      unfolding dec_acc_Cons [of "unat uvalue" ch] u by simp
  next
    assume a: "list_all is_digit (ch # c # cs) \<and>
        dec_acc (unat uvalue) (ch # c # cs) \<le> unat ulimit \<and>
        unat r = dec_acc (unat uvalue) (ch # c # cs)"
    then have dg: "is_digit ch" and dgs: "list_all is_digit (c # cs)"
      and le: "dec_acc ?n (c # cs) \<le> unat ulimit"
      and r: "unat r = dec_acc ?n (c # cs)"
      by (simp_all add: dec_acc_Cons)
    have "?n \<le> dec_acc ?n (c # cs)" by (rule dec_acc_ge)
    with le have n: "?n \<le> unat ulimit" by linarith
    then have u: "unat (word_of_nat ?n :: 'a word) = ?n" by (rule le_unat_uoi)
    have "parse_step ulimit (ulimit div 10) uvalue ch = Some (word_of_nat ?n)"
      using dg n u by (simp only: parse_step_Some [OF len] simp_thms)
    moreover have "parse_loop ulimit (ulimit div 10) (word_of_nat ?n) c cs = Some r"
      using dgs le r by (simp only: Cons.IH u simp_thms)
    ultimately show "parse_loop ulimit (ulimit div 10) uvalue ch (c # cs) = Some r"
      by (simp only: parse_loop_Cons) blast
  qed
qed

lemma parse_loop_value:
  fixes ulimit :: "'a::len word"
  assumes len: "4 \<le> LENGTH('a)" and ne: "ds \<noteq> []"
  shows "parse_loop ulimit (ulimit div 10) 0 (hd ds) (tl ds) =
    (if list_all is_digit ds \<and> dec_value ds \<le> unat ulimit
     then Some (word_of_nat (dec_value ds)) else None)"
proof -
  from ne have ds: "hd ds # tl ds = ds" by simp
  have iff: "parse_loop ulimit (ulimit div 10) 0 (hd ds) (tl ds) = Some r \<longleftrightarrow>
      list_all is_digit ds \<and> dec_value ds \<le> unat ulimit \<and> unat r = dec_value ds" for r
    using parse_loop_Some [OF len, of ulimit 0 "hd ds" "tl ds" r]
    by (simp only: ds unat_0 dec_value_acc)
  show ?thesis
  proof (cases "list_all is_digit ds \<and> dec_value ds \<le> unat ulimit")
    case True
    then have "unat (word_of_nat (dec_value ds) :: 'a word) = dec_value ds"
      by (intro le_unat_uoi [of _ ulimit]) simp
    with True show ?thesis by (simp only: iff if_True simp_thms)
  next
    case False
    then have "parse_loop ulimit (ulimit div 10) 0 (hd ds) (tl ds) \<noteq> Some r" for r
      unfolding iff by blast
    then have "parse_loop ulimit (ulimit div 10) 0 (hd ds) (tl ds) = None"
      by (cases "parse_loop ulimit (ulimit div 10) 0 (hd ds) (tl ds)") auto
    with False show ?thesis by (simp only: if_False)
  qed
qed

lemma neg_result: "(if r = 0 then - r else - (r - 1) - 1) = - (r :: 'a::len word)"
  by simp

text \<open>
  The conversion of a nonzero accumulator of a negative input, step by step on the
  signed type: \<^verbatim>\<open>T(uvalue - 1)\<close> is \<open>uvalue - 1\<close> and its negation less one is in the
  range of \<open>T\<close>.
\<close>

lemma signed_conversion_exact:
  fixes u :: "'a::len word"
  assumes nz: "u \<noteq> 0" and le: "unat u \<le> 2 ^ (LENGTH('a) - 1)"
  shows "sint (u - 1) = int (unat u) - 1"
    and "sint (- (u - 1) - 1) = - sint (u - 1) - 1"
proof -
  from nz have pos: "0 < unat u" by (simp add: unat_gt_0)
  from le have le': "int (unat u) \<le> 2 ^ (LENGTH('a) - 1)"
    by (simp only: of_nat_le_iff [symmetric, where 'a=int] of_nat_power of_nat_numeral)
  have "u - 1 = word_of_int (int (unat u) - 1)" by simp
  moreover have "sint (word_of_int (int (unat u) - 1) :: 'a word) = int (unat u) - 1"
    using pos le' half_bounds(1) [where 'a='a] by (intro sint_of_int_small) linarith+
  ultimately show a: "sint (u - 1) = int (unat u) - 1" by (simp only:)
  have "- (u - 1) - 1 = word_of_int (- int (unat u))" by simp
  moreover have "sint (word_of_int (- int (unat u)) :: 'a word) = - int (unat u)"
    using pos le' half_bounds(1) [where 'a='a] by (intro sint_of_int_small) linarith+
  ultimately have "sint (- (u - 1) - 1) = - int (unat u)" by (simp only:)
  with a show "sint (- (u - 1) - 1) = - sint (u - 1) - 1" by linarith
qed

lemma ParseInteger_neg:
  assumes len: "4 \<le> LENGTH('a::len)" and ne: "ds \<noteq> []"
  shows "ParseInteger True (CHR ''-'' # ds) (out :: 'a word) =
    (if list_all is_digit ds \<and> dec_value ds \<le> 2 ^ (LENGTH('a) - 1)
     then (True, - word_of_nat (dec_value ds)) else (False, out))"
proof -
  have "ParseInteger True (CHR ''-'' # ds) out =
    (case parse_loop (- TypeMin True) (- TypeMin True div 10) 0 (hd ds) (tl ds) of
       None \<Rightarrow> (False, out)
     | Some uvalue \<Rightarrow> (True, if uvalue = 0 then - uvalue else - (uvalue - 1) - 1))"
    using ne by (simp add: ParseInteger_def Let_def cong: option.case_cong)
  also have "\<dots> =
    (case parse_loop (- TypeMin True) (- TypeMin True div 10) 0 (hd ds) (tl ds) of
       None \<Rightarrow> (False, out)
     | Some uvalue \<Rightarrow> (True, - uvalue))"
    by (simp only: neg_result)
  finally show ?thesis
    by (simp only: parse_loop_value [OF len ne] unat_TypeMin_neg) simp
qed

lemma ParseInteger_pos:
  assumes len: "4 \<le> LENGTH('a::len)" and ne: "s \<noteq> []"
    and pos: "\<not> (sgd \<and> hd s = CHR ''-'')"
  shows "ParseInteger sgd s (out :: 'a word) =
    (if list_all is_digit s \<and> dec_value s \<le> unat (TypeMax sgd :: 'a word)
     then (True, word_of_nat (dec_value s)) else (False, out))"
proof -
  from pos have f: "(sgd \<and> hd s = CHR ''-'') = False" by simp
  have "ParseInteger sgd s out =
    (case parse_loop (TypeMax sgd) (TypeMax sgd div 10) 0 (hd s) (tl s) of
       None \<Rightarrow> (False, out)
     | Some uvalue \<Rightarrow> (True, uvalue))"
    unfolding ParseInteger_def Let_def f using ne by (simp cong: option.case_cong)
  then show ?thesis
    by (simp only: parse_loop_value [OF len ne]) simp
qed

lemma minus_not_digit: "\<not> is_digit CHR ''-''"
  by (simp add: is_digit_def)

lemma value_of_TypeMax_unat:
  "value_of sgd (TypeMax sgd :: 'a::len word) = int (unat (TypeMax sgd :: 'a word))"
proof (cases sgd)
  case True
  have "uint (TypeMax True :: 'a word) = sint (TypeMax True :: 'a word)"
    by (simp only: uint_TypeMax_signed sint_TypeMax)
  with True show ?thesis by (simp add: value_of_def)
next
  case False
  then show ?thesis by (simp add: value_of_def)
qed

lemma value_of_TypeMin_le_0: "value_of sgd (TypeMin sgd :: 'a::len word) \<le> 0"
  by (simp add: value_of_TypeMin)

lemma ParseInteger_eq:
  assumes len: "4 \<le> LENGTH('a::len)"
  shows "ParseInteger sgd s (out :: 'a word) =
    (if well_formed sgd s \<and> representable sgd TYPE('a) (dec_int s)
     then (True, word_of_int (dec_int s)) else (False, out))"
proof (cases "s = []")
  case True
  then show ?thesis by (simp add: ParseInteger_def well_formed_def)
next
  case ne: False
  show ?thesis
  proof (cases "sgd \<and> hd s = CHR ''-''")
    case True
    with ne obtain ds where s: "s = CHR ''-'' # ds" and sg: "sgd"
      by (cases s) auto
    show ?thesis
    proof (cases "ds = []")
      case True
      then show ?thesis
        using s sg by (simp add: ParseInteger_def well_formed_def)
    next
      case False
      have w: "well_formed sgd s \<longleftrightarrow> list_all is_digit ds"
        using False s sg by (simp add: well_formed_def)
      have d: "dec_int s = - int (dec_value ds)"
        using s by (simp add: dec_int_def)
      have "representable True TYPE('a) (- int (dec_value ds)) \<longleftrightarrow>
          int (dec_value ds) \<le> 2 ^ (LENGTH('a) - 1)"
        using half_bounds(2) [where 'a='a]
        by (simp only: representable_def value_of_TypeMin value_of_TypeMax if_True) arith
      also have "\<dots> \<longleftrightarrow> dec_value ds \<le> 2 ^ (LENGTH('a) - 1)"
        by (simp only: of_nat_le_iff [symmetric, where 'a=int] of_nat_power of_nat_numeral)
      finally have r: "representable sgd TYPE('a) (dec_int s) \<longleftrightarrow>
          dec_value ds \<le> 2 ^ (LENGTH('a) - 1)"
        using sg d by simp
      have "(- word_of_nat (dec_value ds) :: 'a word) = word_of_int (dec_int s)"
        by (simp add: d)
      then show ?thesis
        using ParseInteger_neg [OF len False, of out] s sg w r by simp
    qed
  next
    case False
    have w: "well_formed sgd s \<longleftrightarrow> list_all is_digit s"
      using False ne by (auto simp: well_formed_def)
    show ?thesis
    proof (cases "list_all is_digit s")
      case dg: True
      with ne have "hd s \<noteq> CHR ''-''"
        using minus_not_digit by (cases s) auto
      then have d: "dec_int s = int (dec_value s)"
        by (simp add: dec_int_def)
      have "value_of sgd (TypeMin sgd :: 'a word) \<le> int (dec_value s)"
        using value_of_TypeMin_le_0 [of sgd, where 'a='a] of_nat_0_le_iff [of "dec_value s"]
        by linarith
      then have r: "representable sgd TYPE('a) (dec_int s) \<longleftrightarrow>
          dec_value s \<le> unat (TypeMax sgd :: 'a word)"
        by (simp only: representable_def d value_of_TypeMax_unat of_nat_le_iff simp_thms)
      have "(word_of_nat (dec_value s) :: 'a word) = word_of_int (dec_int s)"
        by (simp add: d)
      then show ?thesis
        using ParseInteger_pos [OF len ne False, of out] w r by simp
    next
      case False
      then show ?thesis
        using ParseInteger_pos [OF len ne \<open>\<not> (sgd \<and> hd s = CHR ''-'')\<close>, of out] w by simp
    qed
  qed
qed

section \<open>Helper facts for the properties\<close>

lemma hd_digits_not_minus: "ds \<noteq> [] \<Longrightarrow> list_all is_digit ds \<Longrightarrow> hd ds \<noteq> CHR ''-''"
  using minus_not_digit by (cases ds) auto

lemma format_text_parts:
  obtains ds where "format_text sgd v = (if value_of sgd v < 0 then [CHR ''-''] else []) @ ds"
    and "ds \<noteq> []" and "list_all is_digit ds" and "dec_value ds = magnitude sgd v"
proof -
  let ?ds = "rev (lsd (magnitude sgd v))"
  have "format_text sgd v = (if value_of sgd v < 0 then [CHR ''-''] else []) @ ?ds"
    by (simp add: format_text_def)
  moreover have "?ds \<noteq> []" by (simp add: lsd_nonempty)
  moreover have "list_all is_digit ?ds"
    using lsd_digits [of "magnitude sgd v"] by (simp add: list_all_iff)
  moreover have "dec_value ?ds = magnitude sgd v" by (rule dec_value_rev_lsd)
  ultimately show ?thesis by (rule that)
qed

lemma negative_signed: "value_of sgd v < 0 \<Longrightarrow> sgd"
  by (cases sgd) (simp_all add: value_of_def)

lemma format_text_well_formed: "well_formed sgd (format_text sgd v)"
proof -
  obtain ds where t: "format_text sgd v = (if value_of sgd v < 0 then [CHR ''-''] else []) @ ds"
    and ne: "ds \<noteq> []" and dg: "list_all is_digit ds"
    by (rule format_text_parts)
  note hd = hd_digits_not_minus [OF ne dg]
  show ?thesis
  proof (cases "value_of sgd v < 0")
    case True
    then have "sgd" by (rule negative_signed)
    with True ne dg show ?thesis unfolding t well_formed_def by simp
  next
    case False
    with ne dg hd show ?thesis unfolding t well_formed_def by simp
  qed
qed

lemma format_text_dec_int: "dec_int (format_text sgd v) = value_of sgd v"
proof -
  obtain ds where t: "format_text sgd v = (if value_of sgd v < 0 then [CHR ''-''] else []) @ ds"
    and ne: "ds \<noteq> []" and dg: "list_all is_digit ds" and m: "dec_value ds = magnitude sgd v"
    by (rule format_text_parts)
  note hd = hd_digits_not_minus [OF ne dg]
  show ?thesis
  proof (cases "value_of sgd v < 0")
    case True
    then show ?thesis unfolding t dec_int_def by (simp add: m magnitude_def)
  next
    case False
    with ne hd show ?thesis unfolding t dec_int_def by (simp add: m magnitude_def)
  qed
qed

lemma word_of_int_value_of: "word_of_int (value_of sgd v) = v"
  by (simp add: value_of_def)

lemma representable_value_of: "representable sgd TYPE('a) (value_of sgd (v :: 'a::len word))"
  unfolding representable_def by (rule value_of_range)

lemma ParseInteger_format_text:
  assumes "4 \<le> LENGTH('a::len)"
  shows "ParseInteger sgd (format_text sgd v) out = (True, (v :: 'a word))"
  by (simp only: ParseInteger_eq [OF assms] format_text_well_formed format_text_dec_int
      representable_value_of word_of_int_value_of simp_thms if_True)

lemma take_format_text:
  "take (length t) (t @ drop (length t) buf) = t"
  by simp

lemma parse_step_not_digit:
  "\<not> is_digit ch \<Longrightarrow> parse_step ulimit ulimit_10 uvalue ch = None"
proof -
  assume "\<not> is_digit ch"
  then have "(of_char ch :: 8 word) - of_char CHR ''0'' > 9"
    by (simp only: digit_val_gt_9 not_False_eq_True)
  then show ?thesis
    by (simp only: parse_step_unfold if_True)
qed

lemma parse_loop_not_digits:
  "\<not> list_all is_digit (ch # rest) \<Longrightarrow> parse_loop ulimit ulimit_10 uvalue ch rest = None"
proof (induction rest arbitrary: uvalue ch)
  case Nil
  then show ?case by (simp add: parse_loop_Nil parse_step_not_digit)
next
  case (Cons c cs)
  show ?case
  proof (cases "is_digit ch")
    case False
    then show ?thesis
      by (subst parse_loop.simps) (simp add: parse_step_not_digit)
  next
    case True
    with Cons.prems have "\<not> list_all is_digit (c # cs)" by simp
    then have "parse_loop ulimit ulimit_10 u c cs = None" for u by (rule Cons.IH)
    then show ?thesis
      by (subst parse_loop.simps) (simp split: option.split)
  qed
qed

lemma ParseInteger_not_well_formed:
  fixes out :: "'a::len word"
  assumes "\<not> well_formed sgd s"
  shows "ParseInteger sgd s out = (False, out)"
proof (cases "s = []")
  case True
  then show ?thesis by (simp add: ParseInteger_def)
next
  case ne: False
  show ?thesis
  proof (cases "sgd \<and> hd s = CHR ''-''")
    case True
    show ?thesis
    proof (cases "tl s = []")
      case True
      with \<open>sgd \<and> hd s = CHR ''-''\<close> ne show ?thesis by (simp add: ParseInteger_def)
    next
      case False
      with assms True ne have "\<not> list_all is_digit (hd (tl s) # tl (tl s))"
        by (simp add: well_formed_def)
      then have "parse_loop (- TypeMin sgd :: 'a word) (- TypeMin sgd div 10) 0 (hd (tl s)) (tl (tl s)) = None"
        by (rule parse_loop_not_digits)
      with True False ne show ?thesis by (simp add: ParseInteger_def Let_def)
    qed
  next
    case False
    then have f: "(sgd \<and> hd s = CHR ''-'') = False" by simp
    from assms ne False have "\<not> list_all is_digit (hd s # tl s)"
      by (auto simp: well_formed_def)
    then have "parse_loop (TypeMax sgd :: 'a word) (TypeMax sgd div 10) 0 (hd s) (tl s) = None"
      by (rule parse_loop_not_digits)
    then show ?thesis
      unfolding ParseInteger_def Let_def f using ne by simp
  qed
qed

lemma value_of_word_of_int:
  assumes "representable sgd TYPE('a::len) i"
  shows "value_of sgd (word_of_int i :: 'a word) = i"
proof (cases sgd)
  case True
  with assms have "- (2 ^ (LENGTH('a) - 1)) \<le> i" and "i < 2 ^ (LENGTH('a) - 1)"
    by (simp_all only: representable_def value_of_TypeMin value_of_TypeMax if_True) linarith+
  then have "sint (word_of_int i :: 'a word) = i" by (rule sint_of_int_small)
  with True show ?thesis by (simp only: value_of_def if_True)
next
  case False
  with assms have "0 \<le> i" and "i < 2 ^ LENGTH('a)"
    by (simp_all only: representable_def value_of_TypeMin value_of_TypeMax if_False) linarith+
  then have "uint (word_of_int i :: 'a word) = i" by (rule uint_of_int_small)
  with False show ?thesis by (simp only: value_of_def if_False)
qed

lemma ParseInteger_True:
  assumes len: "4 \<le> LENGTH('a::len)" and p: "ParseInteger sgd s out = (True, (v :: 'a word))"
  shows "well_formed sgd s" and "representable sgd TYPE('a) (dec_int s)"
    and "value_of sgd v = dec_int s"
proof -
  from p have c: "well_formed sgd s \<and> representable sgd TYPE('a) (dec_int s)"
    unfolding ParseInteger_eq [OF len] by (simp split: if_splits)
  then show "well_formed sgd s" and r: "representable sgd TYPE('a) (dec_int s)"
    by simp_all
  from p c have "v = word_of_int (dec_int s)"
    unfolding ParseInteger_eq [OF len] by simp
  then show "value_of sgd v = dec_int s"
    using value_of_word_of_int [OF r] by simp
qed

lemma not_decimal_007: "\<not> is_decimal_of i ''007''"
  by (simp add: is_decimal_of_def)

lemma representable_7:
  assumes "4 \<le> LENGTH('a::len)"
  shows "representable sgd TYPE('a) 7" and "sgd \<Longrightarrow> representable sgd TYPE('a) (- 7)"
    and "representable sgd TYPE('a) 0"
proof -
  from assms have "3 \<le> LENGTH('a) - 1" by simp
  then have "(2::int) ^ 3 \<le> 2 ^ (LENGTH('a) - 1)"
    by (rule power_increasing) simp
  then have a: "(8::int) \<le> 2 ^ (LENGTH('a) - 1)" by simp
  from assms have "(2::int) ^ 4 \<le> 2 ^ LENGTH('a)"
    by (rule power_increasing) simp
  then have b: "(16::int) \<le> 2 ^ LENGTH('a)" by simp
  show "representable sgd TYPE('a) 7"
    using a b by (cases sgd) (simp_all only: representable_def value_of_TypeMin value_of_TypeMax if_True if_False, linarith+)
  show "representable sgd TYPE('a) 0"
    using a b by (cases sgd) (simp_all only: representable_def value_of_TypeMin value_of_TypeMax if_True if_False, linarith+)
  show "representable sgd TYPE('a) (- 7)" if "sgd"
    using a that by (simp only: representable_def value_of_TypeMin value_of_TypeMax if_True) linarith
qed

section \<open>The length bound of the signed 8-bit type\<close>

lemma max_len_s8: "length_bound True TYPE(8) = 4"
  by code_simp

section \<open>Round trip\<close>

text \<open>
  C1. Round trip. For every integer type \<open>T\<close> (of at least 4 bits, signed or unsigned), every
  value \<open>v\<close> of \<open>T\<close> and every buffer of at least \<open>length_bound\<close> bytes,
  \<open>FormatInteger\<close> returns, and \<open>ParseInteger\<close> applied to the characters written, from
  the start of the buffer to the returned pointer, succeeds and stores exactly \<open>v\<close>,
  whatever the output location held. The most negative value of a signed \<open>T\<close> is one of
  these values; the witness is at \<open>-128\<close> for 8 bits.
\<close>

theorem FormatInteger_ParseInteger_roundtrip:
  fixes v :: "'a::len word"
  assumes "4 \<le> LENGTH('a)" and "length_bound sgd TYPE('a) \<le> length buf"
  shows "\<exists>buf' n. FormatInteger sgd buf v = Some (buf', n) \<and>
           ParseInteger sgd (take n buf') out = (True, v)"
proof -
  let ?t = "format_text sgd v"
  have "FormatInteger sgd buf v = Some (?t @ drop (length ?t) buf, length ?t)"
    by (rule FormatInteger_ok(1) [OF assms])
  moreover have "ParseInteger sgd (take (length ?t) (?t @ drop (length ?t) buf)) out = (True, v)"
    by (simp only: take_format_text ParseInteger_format_text [OF assms(1)])
  ultimately show ?thesis by blast
qed

theorem FormatInteger_ParseInteger_roundtrip_witness:
  "4 \<le> LENGTH(8) \<and> length_bound True TYPE(8) \<le> length ''xxxxxx'' \<and>
   (\<exists>buf' n. FormatInteger True ''xxxxxx'' (TypeMin True :: 8 word) = Some (buf', n) \<and>
      ParseInteger True (take n buf') 0 = (True, TypeMin True :: 8 word))"
proof -
  have h1: "4 \<le> LENGTH(8)" by simp
  have h2: "length_bound True TYPE(8) \<le> length ''xxxxxx''" by (simp add: max_len_s8)
  show ?thesis
    using h1 h2 FormatInteger_ParseInteger_roundtrip [OF h1 h2, of "TypeMin True" 0] by simp
qed

section \<open>Properties of the formatter\<close>

text \<open>
  C2. The claim: for every integer type \<open>T\<close>, \<open>FormatInteger\<close> writes at most
  \<^verbatim>\<open>MaxIntegerFormatLen<T>\<close> characters for any value of \<open>T\<close>, and some value attains the
  bound, the minimum of a signed \<open>T\<close>, the maximum of an unsigned \<open>T\<close>.

  The source has no \<^verbatim>\<open>MaxIntegerFormatLen<T>\<close> for a signed \<open>T\<close>: the plain \<^verbatim>\<open>if\<close> of
  \<open>MaxIntegerFormatLenBase\<close> instantiates \<^verbatim>\<open>IntegerFormatLenUnsigned<T>\<close>, whose
  \<^verbatim>\<open>static_assert\<close> fails. For an unsigned \<open>T\<close> (of at least 4 bits) the constant is the
  length bound of the spec. Against that length bound the formatter does what the claim
  says, for both signednesses: the text it writes for a value does not depend on the
  buffer, is left at the start of the buffer with the rest of the buffer behind it, and
  is at most as long as the bound; the text of the minimum of a signed \<open>T\<close>, of the maximum
  of an unsigned \<open>T\<close>, is exactly as long.
\<close>

theorem MaxIntegerFormatLen_only_unsigned:
  fixes v :: "'a::len word"
  assumes "4 \<le> LENGTH('a)"
  shows "MaxIntegerFormatLen True TYPE('a) = None \<and>
         MaxIntegerFormatLen False TYPE('a) = Some (length_bound False TYPE('a)) \<and>
         (\<exists>t. length t \<le> length_bound sgd TYPE('a) \<and>
            (\<forall>buf. length_bound sgd TYPE('a) \<le> length buf \<longrightarrow>
               FormatInteger sgd buf v = Some (t @ drop (length t) buf, length t))) \<and>
         (\<exists>t. length t = length_bound sgd TYPE('a) \<and>
            (\<forall>buf. length_bound sgd TYPE('a) \<le> length buf \<longrightarrow>
               FormatInteger sgd buf (if sgd then TypeMin sgd else TypeMax sgd :: 'a word) =
                 Some (t @ drop (length t) buf, length t)))"
proof (intro conjI)
  show "MaxIntegerFormatLen True TYPE('a) = None"
    by (rule MaxIntegerFormatLen_signed)
  show "MaxIntegerFormatLen False TYPE('a) = Some (length_bound False TYPE('a))"
    by (rule MaxIntegerFormatLen_unsigned [OF assms])
  have "length (format_text sgd v) \<le> length_bound sgd TYPE('a)"
    by (rule length_format_text_le)
  moreover have "\<forall>buf. length_bound sgd TYPE('a) \<le> length buf \<longrightarrow>
      FormatInteger sgd buf v =
        Some (format_text sgd v @ drop (length (format_text sgd v)) buf,
              length (format_text sgd v))"
    by (intro allI impI) (rule FormatInteger_ok(1) [OF assms])
  ultimately show "\<exists>t. length t \<le> length_bound sgd TYPE('a) \<and>
      (\<forall>buf. length_bound sgd TYPE('a) \<le> length buf \<longrightarrow>
         FormatInteger sgd buf v = Some (t @ drop (length t) buf, length t))"
    by blast
  let ?h = "if sgd then TypeMin sgd else TypeMax sgd :: 'a word"
  have "length (format_text sgd ?h) = length_bound sgd TYPE('a)"
    by (rule format_text_hardest)
  moreover have "\<forall>buf. length_bound sgd TYPE('a) \<le> length buf \<longrightarrow>
      FormatInteger sgd buf ?h =
        Some (format_text sgd ?h @ drop (length (format_text sgd ?h)) buf,
              length (format_text sgd ?h))"
    by (intro allI impI) (rule FormatInteger_ok(1) [OF assms])
  ultimately show "\<exists>t. length t = length_bound sgd TYPE('a) \<and>
      (\<forall>buf. length_bound sgd TYPE('a) \<le> length buf \<longrightarrow>
         FormatInteger sgd buf ?h = Some (t @ drop (length t) buf, length t))"
    by blast
qed

theorem MaxIntegerFormatLen_only_unsigned_witness:
  "4 \<le> LENGTH(8) \<and>
   MaxIntegerFormatLen True TYPE(8) = None \<and>
   MaxIntegerFormatLen False TYPE(8) = Some (length_bound False TYPE(8)) \<and>
   length_bound True TYPE(8) \<le> length ''xxxxxx'' \<and>
   (\<exists>t. length t = length_bound True TYPE(8) \<and>
      FormatInteger True ''xxxxxx'' (TypeMin True :: 8 word) =
        Some (t @ drop (length t) ''xxxxxx'', length t))"
proof -
  have h1: "4 \<le> LENGTH(8)" by simp
  have h2: "length_bound True TYPE(8) \<le> length ''xxxxxx''" by (simp add: max_len_s8)
  note th = MaxIntegerFormatLen_only_unsigned [OF h1, of True "TypeMin True"]
  from th obtain t where "length t = length_bound True TYPE(8)"
    and "\<forall>buf. length_bound True TYPE(8) \<le> length buf \<longrightarrow>
      FormatInteger True buf (TypeMin True :: 8 word) = Some (t @ drop (length t) buf, length t)"
    by auto
  with h2 have "\<exists>t. length t = length_bound True TYPE(8) \<and>
      FormatInteger True ''xxxxxx'' (TypeMin True :: 8 word) =
        Some (t @ drop (length t) ''xxxxxx'', length t)"
    by blast
  with h1 h2 th show ?thesis by blast
qed

text \<open>
  C3. For every integer type \<open>T\<close> (of at least 4 bits), every value \<open>v\<close> of \<open>T\<close> and every
  buffer of at least \<open>length_bound\<close> bytes, \<open>FormatInteger\<close> writes the
  decimal representation of \<open>v\<close> at the start of the buffer and returns the index one
  past the last byte written: the bytes before the returned pointer are a minus sign
  exactly when \<open>v\<close> is negative, followed by the digits of the magnitude of \<open>v\<close>, at least
  one, with no leading zero unless they are the single character \<open>0\<close>; for the value
  zero they are exactly \<open>0\<close>.
\<close>

theorem FormatInteger_decimal:
  fixes v :: "'a::len word"
  assumes "4 \<le> LENGTH('a)" and "length_bound sgd TYPE('a) \<le> length buf"
  shows "\<exists>buf' n. FormatInteger sgd buf v = Some (buf', n) \<and> n \<le> length buf' \<and>
           is_decimal_of (value_of sgd v) (take n buf') \<and>
           (value_of sgd v = 0 \<longrightarrow> take n buf' = ''0'')"
proof -
  let ?t = "format_text sgd v"
  let ?buf = "?t @ drop (length ?t) buf"
  have "FormatInteger sgd buf v = Some (?buf, length ?t)"
    by (rule FormatInteger_ok(1) [OF assms])
  moreover have "length ?t \<le> length ?buf" by simp
  moreover have "is_decimal_of (value_of sgd v) (take (length ?t) ?buf)"
    by (simp only: take_format_text format_text_decimal)
  moreover have "value_of sgd v = 0 \<longrightarrow> take (length ?t) ?buf = ''0''"
    by (simp only: take_format_text) (simp add: format_text_zero)
  ultimately show ?thesis by blast
qed

theorem FormatInteger_decimal_witness:
  "4 \<le> LENGTH(8) \<and> length_bound True TYPE(8) \<le> length ''xxxxxx'' \<and>
   (\<exists>buf' n. FormatInteger True ''xxxxxx'' (0 :: 8 word) = Some (buf', n) \<and> n \<le> length buf' \<and>
      is_decimal_of (value_of True (0 :: 8 word)) (take n buf') \<and>
      (value_of True (0 :: 8 word) = 0 \<longrightarrow> take n buf' = ''0''))"
proof -
  have h1: "4 \<le> LENGTH(8)" by simp
  have h2: "length_bound True TYPE(8) \<le> length ''xxxxxx''" by (simp add: max_len_s8)
  show ?thesis
    using h1 h2 FormatInteger_decimal [OF h1 h2, of 0] by simp
qed

text \<open>
  C9. The claim: for every integer type \<open>T\<close> and every value \<open>v\<close> of \<open>T\<close>, \<open>FormatInteger\<close>
  writes at least 1 and at most \<^verbatim>\<open>MaxIntegerFormatLen<T>\<close> bytes, and every byte of the
  buffer at or beyond the returned pointer keeps the value it held before the call.

  The source has no \<^verbatim>\<open>MaxIntegerFormatLen<T>\<close> for a signed \<open>T\<close> (the defect of C2); for an
  unsigned \<open>T\<close> the constant is the length bound of the spec. Against that length bound
  the formatter does what the claim says, for both signednesses: the text \<open>t\<close> of a value
  does not depend on the buffer and has between 1 and the bound characters; the call
  returns the index \<open>length t\<close>, the bytes before it are \<open>t\<close>, the buffer keeps its size
  and every byte at or beyond the returned index is the byte of before the call.
\<close>

theorem FormatInteger_frame:
  fixes v :: "'a::len word"
  assumes "4 \<le> LENGTH('a)"
  shows "MaxIntegerFormatLen True TYPE('a) = None \<and>
         MaxIntegerFormatLen False TYPE('a) = Some (length_bound False TYPE('a)) \<and>
         (\<exists>t. 1 \<le> length t \<and> length t \<le> length_bound sgd TYPE('a) \<and>
            (\<forall>buf. length_bound sgd TYPE('a) \<le> length buf \<longrightarrow>
               (\<exists>buf'. FormatInteger sgd buf v = Some (buf', length t) \<and>
                  take (length t) buf' = t \<and> length buf' = length buf \<and>
                  (\<forall>i. length t \<le> i \<and> i < length buf \<longrightarrow> buf' ! i = buf ! i))))"
proof (intro conjI)
  show "MaxIntegerFormatLen True TYPE('a) = None"
    by (rule MaxIntegerFormatLen_signed)
  show "MaxIntegerFormatLen False TYPE('a) = Some (length_bound False TYPE('a))"
    by (rule MaxIntegerFormatLen_unsigned [OF assms])
  let ?t = "format_text sgd v"
  have frame: "\<exists>buf'. FormatInteger sgd buf v = Some (buf', length ?t) \<and>
      take (length ?t) buf' = ?t \<and> length buf' = length buf \<and>
      (\<forall>i. length ?t \<le> i \<and> i < length buf \<longrightarrow> buf' ! i = buf ! i)"
    if cap: "length_bound sgd TYPE('a) \<le> length buf" for buf
  proof -
    let ?buf = "?t @ drop (length ?t) buf"
    have le: "length ?t \<le> length buf" by (rule FormatInteger_ok(2) [OF assms cap])
    have "FormatInteger sgd buf v = Some (?buf, length ?t)"
      by (rule FormatInteger_ok(1) [OF assms cap])
    moreover have "take (length ?t) ?buf = ?t" by (rule take_format_text)
    moreover have "length ?buf = length buf" using le by simp
    moreover have "\<forall>i. length ?t \<le> i \<and> i < length buf \<longrightarrow> ?buf ! i = buf ! i"
      by (simp add: nth_append)
    ultimately show ?thesis by blast
  qed
  have "1 \<le> length ?t" by (rule format_text_nonempty)
  moreover have "length ?t \<le> length_bound sgd TYPE('a)"
    by (rule length_format_text_le)
  ultimately show "\<exists>t. 1 \<le> length t \<and> length t \<le> length_bound sgd TYPE('a) \<and>
      (\<forall>buf. length_bound sgd TYPE('a) \<le> length buf \<longrightarrow>
         (\<exists>buf'. FormatInteger sgd buf v = Some (buf', length t) \<and>
            take (length t) buf' = t \<and> length buf' = length buf \<and>
            (\<forall>i. length t \<le> i \<and> i < length buf \<longrightarrow> buf' ! i = buf ! i)))"
    using frame by blast
qed

theorem FormatInteger_frame_witness:
  "4 \<le> LENGTH(8) \<and>
   MaxIntegerFormatLen True TYPE(8) = None \<and>
   length_bound True TYPE(8) \<le> length ''abcdef'' \<and>
   (\<exists>t buf'. 1 \<le> length t \<and> length t \<le> length_bound True TYPE(8) \<and>
      FormatInteger True ''abcdef'' (- 42 :: 8 word) = Some (buf', length t) \<and>
      take (length t) buf' = t \<and> length buf' = length ''abcdef'' \<and>
      (\<forall>i. length t \<le> i \<and> i < length ''abcdef'' \<longrightarrow> buf' ! i = ''abcdef'' ! i))"
proof -
  have h1: "4 \<le> LENGTH(8)" by simp
  have h2: "length_bound True TYPE(8) \<le> length ''abcdef''" by (simp add: max_len_s8)
  note th = FormatInteger_frame [OF h1, of True "- 42"]
  from th obtain t where t: "1 \<le> length t" "length t \<le> length_bound True TYPE(8)"
    and f: "\<forall>buf. length_bound True TYPE(8) \<le> length buf \<longrightarrow>
      (\<exists>buf'. FormatInteger True buf (- 42 :: 8 word) = Some (buf', length t) \<and>
         take (length t) buf' = t \<and> length buf' = length buf \<and>
         (\<forall>i. length t \<le> i \<and> i < length buf \<longrightarrow> buf' ! i = buf ! i))"
    by auto
  from f h2 obtain buf' where
    "FormatInteger True ''abcdef'' (- 42 :: 8 word) = Some (buf', length t) \<and>
     take (length t) buf' = t \<and> length buf' = length ''abcdef'' \<and>
     (\<forall>i. length t \<le> i \<and> i < length ''abcdef'' \<longrightarrow> buf' ! i = ''abcdef'' ! i)"
    by blast
  with t have "\<exists>t buf'. 1 \<le> length t \<and> length t \<le> length_bound True TYPE(8) \<and>
      FormatInteger True ''abcdef'' (- 42 :: 8 word) = Some (buf', length t) \<and>
      take (length t) buf' = t \<and> length buf' = length ''abcdef'' \<and>
      (\<forall>i. length t \<le> i \<and> i < length ''abcdef'' \<longrightarrow> buf' ! i = ''abcdef'' ! i)"
    by blast
  with h1 h2 th show ?thesis by blast
qed

section \<open>Properties of the parser\<close>

text \<open>
  C4. For every integer type \<open>T\<close>, every input span and every prior content of the output
  location: if \<open>ParseInteger\<close> returns false, the output location holds the value it held
  before the call.
\<close>

theorem ParseInteger_failure_atomic:
  "\<not> fst (ParseInteger sgd s out) \<Longrightarrow> snd (ParseInteger sgd s out) = out"
  by (auto simp: ParseInteger_def Let_def split: if_splits option.splits)

theorem ParseInteger_failure_atomic_witness:
  "\<not> fst (ParseInteger True ''128'' (42 :: 8 word)) \<and>
   snd (ParseInteger True ''128'' (42 :: 8 word)) = 42"
proof -
  have h: "\<not> fst (ParseInteger True ''128'' (42 :: 8 word))" by code_simp
  show ?thesis
    using h ParseInteger_failure_atomic [OF h] by simp
qed

text \<open>
  C5. For every integer type \<open>T\<close>, \<open>ParseInteger\<close> returns false for every input that is
  not an optional single leading minus sign (only when \<open>T\<close> is signed) followed by one or
  more decimal digits. In particular the empty string, a lone minus sign, \<open>+5\<close>, \<open>12a\<close>,
  \<open>--3\<close>, a digit after a space and a digit before a space all fail, and every input
  that begins with a minus sign fails when \<open>T\<close> is unsigned.
\<close>

theorem ParseInteger_rejects:
  "(\<not> well_formed sgd s \<longrightarrow> \<not> fst (ParseInteger sgd s out)) \<and>
   (\<forall>s \<in> set ['''', ''-'', ''+5'', ''12a'', ''--3'', '' 5'', ''5 ''].
      \<not> fst (ParseInteger sgd s out)) \<and>
   (\<not> sgd \<and> s \<noteq> [] \<and> hd s = CHR ''-'' \<longrightarrow> \<not> fst (ParseInteger sgd s out))"
proof (intro conjI impI ballI)
  assume "\<not> well_formed sgd s"
  then show "\<not> fst (ParseInteger sgd s out)"
    by (simp add: ParseInteger_not_well_formed)
next
  fix t assume "t \<in> set ['''', ''-'', ''+5'', ''12a'', ''--3'', '' 5'', ''5 '']"
  then have "\<not> well_formed sgd t"
    by (auto simp: well_formed_def is_digit_def)
  then show "\<not> fst (ParseInteger sgd t out)"
    by (simp add: ParseInteger_not_well_formed)
next
  assume a: "\<not> sgd \<and> s \<noteq> [] \<and> hd s = CHR ''-''"
  then have "\<not> list_all is_digit s"
    using minus_not_digit by (cases s) auto
  with a have "\<not> well_formed sgd s" by (simp add: well_formed_def)
  then show "\<not> fst (ParseInteger sgd s out)"
    by (simp add: ParseInteger_not_well_formed)
qed

theorem ParseInteger_rejects_witness:
  "\<not> well_formed False ''-1'' \<and> \<not> fst (ParseInteger False ''-1'' (0 :: 8 word)) \<and>
   \<not> well_formed True ''12a'' \<and> \<not> fst (ParseInteger True ''12a'' (0 :: 8 word)) \<and>
   \<not> fst (ParseInteger True ''+5'' (0 :: 8 word))"
proof -
  have h1: "\<not> well_formed False ''-1''" by (simp add: well_formed_def is_digit_def)
  have h2: "\<not> well_formed True ''12a''" by (simp add: well_formed_def is_digit_def)
  show ?thesis
    using h1 h2 ParseInteger_rejects [of False "''-1''" "0 :: 8 word"]
      ParseInteger_rejects [of True "''12a''" "0 :: 8 word"]
    by simp
qed

text \<open>
  C6. For every signed integer type \<open>T\<close>, \<open>ParseInteger\<close> applied to \<open>-0\<close> succeeds and
  stores zero. The accumulator is then zero and the result is taken from the branch
  \<^verbatim>\<open>uvalue == 0\<close> of the conversion in \<open>ParseInteger\<close>, not from
  \<^verbatim>\<open>-T(uvalue - 1) - 1\<close>.
\<close>

theorem ParseInteger_minus_zero:
  "ParseInteger True ''-0'' (out :: 'a::len word) = (True, 0)"
  by (simp add: ParseInteger_def parse_loop.simps parse_step_def)

text \<open>
  C7. The boundaries of the 8-bit types. Signed: \<open>-128\<close> is parsed to the value -128,
  \<open>-129\<close> fails, \<open>127\<close> is parsed to 127 and \<open>128\<close> fails. Unsigned: \<open>255\<close> is parsed to
  255, \<open>256\<close> fails and \<open>-1\<close> fails.
\<close>

theorem ParseInteger_boundaries_8bit:
  "ParseInteger True ''-128'' (out :: 8 word) = (True, - 128) \<and>
   value_of True (- 128 :: 8 word) = - 128 \<and>
   ParseInteger True ''-129'' (out :: 8 word) = (False, out) \<and>
   ParseInteger True ''127'' (out :: 8 word) = (True, 127) \<and>
   value_of True (127 :: 8 word) = 127 \<and>
   ParseInteger True ''128'' (out :: 8 word) = (False, out) \<and>
   ParseInteger False ''255'' (out :: 8 word) = (True, 255) \<and>
   value_of False (255 :: 8 word) = 255 \<and>
   ParseInteger False ''256'' (out :: 8 word) = (False, out) \<and>
   ParseInteger False ''-1'' (out :: 8 word) = (False, out)"
  by (simp add: ParseInteger_def parse_loop.simps parse_step_def TypeMin_def TypeMax_def value_of_def)

text \<open>
  C8. The accumulator of the digit loop never exceeds \<open>ulimit\<close> and its arithmetic never
  wraps around. When the guard \<^verbatim>\<open>uvalue > ulimit_10\<close> lets the loop continue, \<^verbatim>\<open>uvalue * 10\<close>
  is the exact product and is at most \<open>ulimit\<close>; a pass of the loop body that does not
  return false leaves exactly \<open>uvalue * 10 + digit\<close> in the accumulator, at most
  \<open>ulimit\<close>; the loop, when it ends without returning false, leaves the exact number
  that the accumulator and the digits read denote, at most \<open>ulimit\<close>. Hence whenever
  \<open>ParseInteger\<close> succeeds, the input is in the grammar, the integer it denotes is
  representable in \<open>T\<close>, and it is the value stored.
\<close>

theorem parse_accumulator_invariant:
  fixes uvalue uvalue' ulimit r out v :: "'a::len word"
  assumes len: "4 \<le> LENGTH('a)"
  shows "(\<not> uvalue > ulimit div 10 \<longrightarrow>
            unat (uvalue * 10) = unat uvalue * 10 \<and> uvalue * 10 \<le> ulimit) \<and>
         (parse_step ulimit (ulimit div 10) uvalue ch = Some uvalue' \<longrightarrow>
            unat uvalue' = unat uvalue * 10 + digit_of ch \<and> uvalue' \<le> ulimit) \<and>
         (parse_loop ulimit (ulimit div 10) uvalue ch rest = Some r \<longrightarrow>
            unat r = unat uvalue * 10 ^ length (ch # rest) + dec_value (ch # rest) \<and>
            r \<le> ulimit) \<and>
         (ParseInteger sgd s out = (True, v) \<longrightarrow>
            well_formed sgd s \<and> representable sgd TYPE('a) (dec_int s) \<and>
            value_of sgd v = dec_int s)"
proof (intro conjI impI)
  assume g: "\<not> uvalue > ulimit div 10"
  show "unat (uvalue * 10) = unat uvalue * 10" and "uvalue * 10 \<le> ulimit"
    by (rule mult_ten_no_wrap [OF len g])+
next
  assume "parse_step ulimit (ulimit div 10) uvalue ch = Some uvalue'"
  then have "unat uvalue * 10 + digit_of ch \<le> unat ulimit"
    and u: "unat uvalue' = unat uvalue * 10 + digit_of ch"
    by (simp_all only: parse_step_Some [OF len])
  then show "unat uvalue' = unat uvalue * 10 + digit_of ch" and "uvalue' \<le> ulimit"
    by (simp_all only: word_le_nat_alt)
next
  assume "parse_loop ulimit (ulimit div 10) uvalue ch rest = Some r"
  then have "dec_acc (unat uvalue) (ch # rest) \<le> unat ulimit"
    and u: "unat r = dec_acc (unat uvalue) (ch # rest)"
    by (simp_all only: parse_loop_Some [OF len])
  then show "unat r = unat uvalue * 10 ^ length (ch # rest) + dec_value (ch # rest)"
    and "r \<le> ulimit"
    by (simp_all only: word_le_nat_alt dec_acc_pow [symmetric])
next
  assume p: "ParseInteger sgd s out = (True, v)"
  show "well_formed sgd s" and "representable sgd TYPE('a) (dec_int s)"
    and "value_of sgd v = dec_int s"
    by (rule ParseInteger_True [OF len p])+
qed

theorem parse_accumulator_invariant_witness:
  "4 \<le> LENGTH(8) \<and>
   \<not> (12 :: 8 word) > 127 div 10 \<and>
   unat (12 * 10 :: 8 word) = unat (12 :: 8 word) * 10 \<and> (12 * 10 :: 8 word) \<le> 127 \<and>
   parse_step 127 (127 div 10) (12 :: 8 word) CHR ''7'' = Some 127 \<and>
   unat (127 :: 8 word) = unat (12 :: 8 word) * 10 + digit_of CHR ''7'' \<and>
   parse_loop 127 (127 div 10) (12 :: 8 word) CHR ''7'' ''89'' = None \<and>
   parse_loop 127 (127 div 10) (12 :: 8 word) CHR ''7'' [] = Some 127 \<and>
   unat (127 :: 8 word) = unat (12 :: 8 word) * 10 ^ length ''7'' + dec_value ''7'' \<and>
   ParseInteger True ''-128'' (0 :: 8 word) = (True, - 128) \<and>
   well_formed True ''-128'' \<and> representable True TYPE(8) (dec_int ''-128'') \<and>
   value_of True (- 128 :: 8 word) = dec_int ''-128''"
proof -
  have h1: "4 \<le> LENGTH(8)" by simp
  have h2: "\<not> (12 :: 8 word) > 127 div 10" by simp
  have h3: "parse_step 127 (127 div 10) (12 :: 8 word) CHR ''7'' = Some 127"
    by (simp add: parse_step_def)
  have h4: "parse_loop 127 (127 div 10) (12 :: 8 word) CHR ''7'' [] = Some 127"
    by (simp add: parse_loop.simps parse_step_def)
  have h5: "ParseInteger True ''-128'' (0 :: 8 word) = (True, - 128)"
    by (simp add: ParseInteger_def parse_loop.simps parse_step_def TypeMin_def)
  have h6: "parse_loop 127 (127 div 10) (12 :: 8 word) CHR ''7'' ''89'' = None"
    by (simp add: parse_loop.simps parse_step_def)
  show ?thesis
    using h1 h2 h3 h4 h5 h6
      parse_accumulator_invariant [OF h1, where uvalue = 12 and ulimit = 127 and ch = "CHR ''7''"
        and uvalue' = 127 and rest = "[]" and r = 127 and sgd = True and s = "''-128''"
        and out = 0 and v = "- 128"]
    by simp
qed

text \<open>
  C10. \<open>ParseInteger\<close> accepts redundant leading zeros: every text of the grammar whose
  integer is representable in \<open>T\<close> is parsed to that integer; so \<open>007\<close> gives 7, \<open>000\<close>
  gives 0 and, for a signed \<open>T\<close>, \<open>-007\<close> gives -7. \<open>FormatInteger\<close>, on a buffer of at least
  \<open>length_bound\<close> bytes, never writes \<open>007\<close>, so the parser accepts more texts than the
  formatter produces.
\<close>

theorem ParseInteger_leading_zeros:
  fixes out w :: "'a::len word"
  assumes len: "4 \<le> LENGTH('a)"
  shows "(well_formed sgd s \<and> representable sgd TYPE('a) (dec_int s) \<longrightarrow>
            (\<exists>v. ParseInteger sgd s out = (True, v) \<and> value_of sgd v = dec_int s)) \<and>
         ParseInteger sgd ''007'' out = (True, 7) \<and>
         ParseInteger sgd ''000'' out = (True, 0) \<and>
         (sgd \<longrightarrow> ParseInteger sgd ''-007'' out = (True, - 7)) \<and>
         (length_bound sgd TYPE('a) \<le> length buf \<longrightarrow>
            (\<exists>buf' n. FormatInteger sgd buf w = Some (buf', n) \<and> take n buf' \<noteq> ''007''))"
proof (intro conjI impI)
  assume a: "well_formed sgd s \<and> representable sgd TYPE('a) (dec_int s)"
  then have "ParseInteger sgd s out = (True, word_of_int (dec_int s))"
    by (simp only: ParseInteger_eq [OF len] if_True simp_thms)
  moreover from a have "value_of sgd (word_of_int (dec_int s) :: 'a word) = dec_int s"
    by (simp only: value_of_word_of_int)
  ultimately show "\<exists>v. ParseInteger sgd s out = (True, v) \<and> value_of sgd v = dec_int s"
    by blast
next
  have "well_formed sgd ''007''" by (simp add: well_formed_def is_digit_def)
  moreover have "dec_int ''007'' = 7" by (simp add: dec_int_def dec_value_def digit_of_def)
  ultimately show "ParseInteger sgd ''007'' out = (True, 7)"
    using representable_7(1) [OF len, of sgd] by (simp add: ParseInteger_eq [OF len])
next
  have "well_formed sgd ''000''" by (simp add: well_formed_def is_digit_def)
  moreover have "dec_int ''000'' = 0" by (simp add: dec_int_def dec_value_def digit_of_def)
  ultimately show "ParseInteger sgd ''000'' out = (True, 0)"
    using representable_7(3) [OF len, of sgd] by (simp add: ParseInteger_eq [OF len])
next
  assume sg: "sgd"
  then have "well_formed sgd ''-007''" by (simp add: well_formed_def is_digit_def)
  moreover have "dec_int ''-007'' = - 7" by (simp add: dec_int_def dec_value_def digit_of_def)
  ultimately show "ParseInteger sgd ''-007'' out = (True, - 7)"
    using representable_7(2) [OF len sg] by (simp add: ParseInteger_eq [OF len])
next
  assume cap: "length_bound sgd TYPE('a) \<le> length buf"
  let ?t = "format_text sgd w"
  have "FormatInteger sgd buf w = Some (?t @ drop (length ?t) buf, length ?t)"
    by (rule FormatInteger_ok(1) [OF len cap])
  moreover have "take (length ?t) (?t @ drop (length ?t) buf) \<noteq> ''007''"
    using format_text_decimal [of sgd w] not_decimal_007 [of "value_of sgd w"]
    by (simp only: take_format_text) metis
  ultimately show "\<exists>buf' n. FormatInteger sgd buf w = Some (buf', n) \<and> take n buf' \<noteq> ''007''"
    by blast
qed

theorem ParseInteger_leading_zeros_witness:
  "4 \<le> LENGTH(8) \<and>
   well_formed True ''-0012'' \<and> representable True TYPE(8) (dec_int ''-0012'') \<and>
   (\<exists>v. ParseInteger True ''-0012'' (0 :: 8 word) = (True, v) \<and> value_of True v = dec_int ''-0012'') \<and>
   ParseInteger True ''007'' (0 :: 8 word) = (True, 7) \<and>
   ParseInteger True ''000'' (0 :: 8 word) = (True, 0) \<and>
   ParseInteger True ''-007'' (0 :: 8 word) = (True, - 7) \<and>
   length_bound True TYPE(8) \<le> length ''xxxx'' \<and>
   (\<exists>buf' n. FormatInteger True ''xxxx'' (7 :: 8 word) = Some (buf', n) \<and> take n buf' \<noteq> ''007'')"
proof -
  have h1: "4 \<le> LENGTH(8)" by simp
  have h2: "well_formed True ''-0012''" by (simp add: well_formed_def is_digit_def)
  have h3: "representable True TYPE(8) (dec_int ''-0012'')"
    by (simp add: representable_def dec_int_def dec_value_def digit_of_def value_of_def TypeMin_def TypeMax_def)
  have h4: "length_bound True TYPE(8) \<le> length ''xxxx''" by (simp add: max_len_s8)
  show ?thesis
    using h1 h2 h3 h4 ParseInteger_leading_zeros [OF h1, of True "''-0012''" 0 "''xxxx''" 7]
    by simp
qed

end
